theory Spec2Isabelle
  imports Complex_Main "HOL-Library.AList" "HOL-Library.Char_ord" "HOL-Library.List_Lexorder"
begin

section \<open>Median degree of a windowed transaction graph: model of median_degree.py\<close>

subsection \<open>Data model\<close>

text \<open>
  Timestamps.  The program holds every time stamp as a \<^verbatim>\<open>datetime\<close> with second
  resolution, compares them, subtracts two of them (\<^verbatim>\<open>total_seconds\<close>) and subtracts the
  60 second window from one.  A time stamp is modelled as the integer number of seconds on an
  unbounded time line; the bounded range of \<^verbatim>\<open>datetime\<close> (years 1 to 9999) and the calendar
  validation done by its constructor are library behaviour that is not represented.
\<close>

type_synonym time = int

text \<open>An edge is the tuple of the two user names in sorted order.\<close>

type_synonym edge = "string \<times> string"

text \<open>
  An input line is represented by what \<^verbatim>\<open>re.search\<close> finds in it: nothing, or the three
  groups (creation time, target, actor).  The time group is held as the time stamp it denotes.
\<close>

datatype line = NoMatch | Match time string string

text \<open>Exceptions of the dictionary and statistics operations the program calls.\<close>

datatype error = KeyError | StatisticsError

text \<open>
  The two dictionaries are association lists in insertion order: \<^const>\<open>map_of\<close> is the
  lookup, \<^const>\<open>AList.update\<close> is \<^verbatim>\<open>d[k] = v\<close> (in place for a key that is present, at
  the end for a new key) and \<^const>\<open>AList.delete\<close> is \<^verbatim>\<open>d.pop(k)\<close> for a key that is
  present.  The median is an int or a float that is an exact multiple of one half; it is held
  as a rational.
\<close>

record state =
  latest_time :: time
  edges :: "(edge \<times> time) list"
  nodes :: "(string \<times> int) list"
  median_degree :: rat
  med_degree_str :: string
  output_file :: "string list"

subsection \<open>edge_from_str\<close>

definition sorted_pair :: "string \<Rightarrow> string \<Rightarrow> edge" where
  "sorted_pair target actor = (if actor < target then (actor, target) else (target, actor))"

definition edge_from_str :: "line \<Rightarrow> (edge \<times> time) option" where
  "edge_from_str line_str =
     (case line_str of
        NoMatch \<Rightarrow> None
      | Match time_obj target actor \<Rightarrow>
          if target \<noteq> [] \<and> actor \<noteq> [] then Some (sorted_pair target actor, time_obj)
          else None)"

subsection \<open>The median of the degrees and its output format\<close>

text \<open>\<^verbatim>\<open>statistics.median\<close>: sort, fail on no data, take the middle or the mean of the two
  middle values.\<close>

definition median :: "int list \<Rightarrow> error + rat" where
  "median xs =
     (let data = sort xs; n = length data in
      if n = 0 then Inl StatisticsError
      else if n mod 2 = 1 then Inr (of_int (data ! (n div 2)))
      else Inr ((of_int (data ! (n div 2 - 1)) + of_int (data ! (n div 2))) / 2))"

text \<open>\<^verbatim>\<open>int(x)\<close> on a number: truncation toward zero.\<close>

definition py_int :: "rat \<Rightarrow> int" where
  "py_int x = (if 0 \<le> x then \<lfloor>x\<rfloor> else \<lceil>x\<rceil>)"

definition digit :: "nat \<Rightarrow> char" where
  "digit d = char_of (48 + d)"

fun decimal :: "nat \<Rightarrow> string" where
  "decimal n = (if n < 10 then [digit n] else decimal (n div 10) @ [digit (n mod 10)])"

declare decimal.simps [simp del]

text \<open>\<^verbatim>\<open>'%.2f' % x\<close>: the sign, then the value rounded to the nearest hundredth (a tie goes
  to the even one), with two digits after the point.\<close>

definition round_half_even :: "rat \<Rightarrow> int" where
  "round_half_even x =
     (let f = \<lfloor>x\<rfloor>; r = x - of_int f in
      if r < 1 / 2 then f else if 1 / 2 < r then f + 1 else if even f then f else f + 1)"

definition percent_2f :: "rat \<Rightarrow> string" where
  "percent_2f x =
     (let h = nat (round_half_even (\<bar>x\<bar> * 100)) in
      (if x < 0 then ''-'' else []) @ decimal (h div 100) @ ''.''
        @ [digit (h mod 100 div 10), digit (h mod 10)])"

definition crlf :: string where
  "crlf = [CHR 0x0D, CHR 0x0A]"

text \<open>\<^verbatim>\<open>'%.2f' % (int(median_degree*100)/100) + '\r\n'\<close>\<close>

definition med_str :: "rat \<Rightarrow> string" where
  "med_str m = percent_2f (of_int (py_int (m * 100)) / 100) @ crlf"

subsection \<open>Admission and eviction\<close>

definition add_node :: "string \<Rightarrow> (string \<times> int) list \<Rightarrow> (string \<times> int) list" where
  "add_node node ns =
     (case map_of ns node of
        Some d \<Rightarrow> AList.update node (d + 1) ns
      | None \<Rightarrow> AList.update node 1 ns)"

text \<open>\<^verbatim>\<open>for node in edge\<close>: first component, then second.\<close>

definition add_nodes :: "edge \<Rightarrow> (string \<times> int) list \<Rightarrow> (string \<times> int) list" where
  "add_nodes edge ns = add_node (snd edge) (add_node (fst edge) ns)"

definition drop_node :: "string \<Rightarrow> (string \<times> int) list \<Rightarrow> error + (string \<times> int) list" where
  "drop_node node ns =
     (case map_of ns node of
        None \<Rightarrow> Inl KeyError
      | Some d \<Rightarrow> if d = 1 then Inr (AList.delete node ns) else Inr (AList.update node (d - 1) ns))"

definition evict_edges :: "time \<Rightarrow> (edge \<times> time) list \<Rightarrow> edge list" where
  "evict_edges end_time es =
     [edge \<leftarrow> map fst es. (case map_of es edge of Some t \<Rightarrow> t \<le> end_time | None \<Rightarrow> False)]"

fun evict_loop ::
  "edge list \<Rightarrow> (edge \<times> time) list \<Rightarrow> (string \<times> int) list
     \<Rightarrow> error + ((edge \<times> time) list \<times> (string \<times> int) list)" where
  "evict_loop [] es ns = Inr (es, ns)"
| "evict_loop (edge # rest) es ns =
     (case map_of es edge of
        None \<Rightarrow> Inl KeyError
      | Some _ \<Rightarrow>
          (case drop_node (fst edge) ns of
             Inl e \<Rightarrow> Inl e
           | Inr ns1 \<Rightarrow>
               (case drop_node (snd edge) ns1 of
                  Inl e \<Rightarrow> Inl e
                | Inr ns2 \<Rightarrow> evict_loop rest (AList.delete edge es) ns2)))"

definition evict :: "state \<Rightarrow> time \<Rightarrow> error + state" where
  "evict s time_obj =
     (let end_time = time_obj - 60 in
      case evict_loop (evict_edges end_time (edges s)) (edges s) (nodes s) of
        Inl e \<Rightarrow> Inl e
      | Inr (es, ns) \<Rightarrow> Inr (s\<lparr>latest_time := time_obj, edges := es, nodes := ns\<rparr>))"

definition recompute :: "state \<Rightarrow> error + state" where
  "recompute s =
     (case median (map snd (nodes s)) of
        Inl e \<Rightarrow> Inl e
      | Inr m \<Rightarrow> Inr (s\<lparr>median_degree := m\<rparr>))"

definition write_median :: "state \<Rightarrow> state" where
  "write_median s =
     s\<lparr>med_degree_str := med_str (median_degree s),
       output_file := output_file s @ [med_str (median_degree s)]\<rparr>"

subsection \<open>The three cases of the main loop\<close>

definition admit :: "state \<Rightarrow> edge \<Rightarrow> time \<Rightarrow> state" where
  "admit s edge time_obj =
     (if map_of (edges s) edge \<noteq> None then s\<lparr>edges := AList.update edge time_obj (edges s)\<rparr>
      else s\<lparr>edges := AList.update edge time_obj (edges s), nodes := add_nodes edge (nodes s)\<rparr>)"

definition case_A :: "state \<Rightarrow> edge \<Rightarrow> time \<Rightarrow> error + state" where
  "case_A s edge time_obj =
     (case (if 0 < time_obj - latest_time s then evict (admit s edge time_obj) time_obj
            else Inr (admit s edge time_obj)) of
        Inl e \<Rightarrow> Inl e
      | Inr s2 \<Rightarrow>
          (case recompute s2 of Inl e \<Rightarrow> Inl e | Inr s3 \<Rightarrow> Inr (write_median s3)))"

definition case_B :: "state \<Rightarrow> edge \<Rightarrow> time \<Rightarrow> error + state" where
  "case_B s edge time_obj =
     (case map_of (edges s) edge of
        Some t \<Rightarrow>
          Inr (write_median
                 (if t < time_obj then s\<lparr>edges := AList.update edge time_obj (edges s)\<rparr> else s))
      | None \<Rightarrow>
          (case recompute (admit s edge time_obj) of
             Inl e \<Rightarrow> Inl e
           | Inr s3 \<Rightarrow> Inr (write_median s3)))"

definition case_C :: "state \<Rightarrow> state" where
  "case_C s = s\<lparr>output_file := output_file s @ [med_degree_str s]\<rparr>"

definition step :: "state \<Rightarrow> line \<Rightarrow> error + state" where
  "step s l =
     (case edge_from_str l of
        None \<Rightarrow> Inr s
      | Some (edge, time_obj) \<Rightarrow>
          if 0 \<le> time_obj - latest_time s then case_A s edge time_obj
          else if - 60 < time_obj - latest_time s then case_B s edge time_obj
          else Inr (case_C s))"

fun process :: "state \<Rightarrow> line list \<Rightarrow> error + state" where
  "process s [] = Inr s"
| "process s (l # rest) = (case step s l of Inl e \<Rightarrow> Inl e | Inr s' \<Rightarrow> process s' rest)"

subsection \<open>The bootstrap loop and main\<close>

text \<open>\<^verbatim>\<open>readline\<close> gives the next line, and the empty string (in which the pattern is not
  found) at the end of the file, as often as it is called.\<close>

definition readline :: "line list \<Rightarrow> line \<times> line list" where
  "readline input_data = (case input_data of [] \<Rightarrow> (NoMatch, []) | l # rest \<Rightarrow> (l, rest))"

definition first_state :: "edge \<Rightarrow> time \<Rightarrow> state" where
  "first_state edge time_obj =
     \<lparr>latest_time = time_obj,
      edges = [(edge, time_obj)],
      nodes = AList.update (snd edge) 1 [(fst edge, 1)],
      median_degree = 1,
      med_degree_str = med_str 1,
      output_file = [med_str 1]\<rparr>"

text \<open>\<^verbatim>\<open>while median_degree == 0\<close>: the loop ends only when a line gives an edge.  A run
  that never leaves it is the value \<open>None\<close>.\<close>

partial_function (option) bootstrap :: "line list \<Rightarrow> (state \<times> line list) option" where
  [code]: "bootstrap input_data =
     (case edge_from_str (fst (readline input_data)) of
        None \<Rightarrow> bootstrap (snd (readline input_data))
      | Some (edge, time_obj) \<Rightarrow> Some (first_state edge time_obj, snd (readline input_data)))"

definition main :: "line list \<Rightarrow> (error + state) option" where
  "main input_data =
     (case bootstrap input_data of
        None \<Rightarrow> None
      | Some (s, rest) \<Rightarrow> Some (process s rest))"

text \<open>What a run has written to the output file when it ends without an exception.\<close>

definition emitted :: "(error + state) option \<Rightarrow> string list" where
  "emitted r = (case r of Some (Inr s) \<Rightarrow> output_file s | _ \<Rightarrow> [])"

text \<open>The state after each write: the last line written is \<^verbatim>\<open>med_degree_str\<close>, which is the
  formatted \<^verbatim>\<open>median_degree\<close>, which is the median of the degrees in the node table.\<close>

definition reported :: "state \<Rightarrow> bool" where
  "reported s \<longleftrightarrow>
     output_file s \<noteq> [] \<and> last (output_file s) = med_degree_str s \<and>
     med_degree_str s = med_str (median_degree s) \<and>
     median (map snd (nodes s)) = Inr (median_degree s)"

subsection \<open>Notions of the specification\<close>

text \<open>The median as the specification words it: sort the values and take the middle value, or
  the mean of the two middle values.  The middle of a list is what is left when the first and
  the last element are taken away until at most two remain.\<close>

function middle :: "'a list \<Rightarrow> 'a list" where
  "middle xs = (if length xs \<le> 2 then xs else middle (butlast (tl xs)))"
  by pat_completeness auto
termination
  by (relation "measure length") auto

declare middle.simps [simp del]

definition standard_median :: "int list \<Rightarrow> rat" where
  "standard_median xs =
     of_int (sum_list (middle (sort xs))) / of_nat (length (middle (sort xs)))"

text \<open>Reading a decimal numeral: the digits are the ten characters from 0 to 9, the value of
  a digit is its place among them, and the value of a string of digits is read from the left,
  ten times the value so far plus the next digit.\<close>

definition is_digit :: "char \<Rightarrow> bool" where
  "is_digit c \<longleftrightarrow> c \<in> set ''0123456789''"

definition digit_value :: "char \<Rightarrow> nat" where
  "digit_value c = length (takeWhile (\<lambda>d. d \<noteq> c) ''0123456789'')"

definition decimal_value :: "string \<Rightarrow> nat" where
  "decimal_value w = foldl (\<lambda>a c. 10 * a + digit_value c) 0 w"

text \<open>The last-seen time stamp of an edge: the most recent time among the events of the input
  read so far that carry this edge.  \<open>window_inv\<close> says that the edge table holds exactly the
  edges whose last-seen time stamp is inside the window, each with that time stamp, and that
  no event is later than \<^verbatim>\<open>latest_time\<close>.\<close>

definition event_times :: "line list \<Rightarrow> edge \<Rightarrow> time list" where
  "event_times ls e = map snd (filter (\<lambda>ev. fst ev = e) (List.map_filter edge_from_str ls))"

definition last_seen :: "line list \<Rightarrow> edge \<Rightarrow> time option" where
  "last_seen ls e = (if event_times ls e = [] then None else Some (Max (set (event_times ls e))))"

definition window_inv :: "line list \<Rightarrow> state \<Rightarrow> bool" where
  "window_inv ls s \<longleftrightarrow>
     distinct (map fst (edges s)) \<and>
     (\<forall>e. map_of (edges s) e =
        (case last_seen ls e of
           None \<Rightarrow> None
         | Some t \<Rightarrow> if latest_time s - 60 < t then Some t else None)) \<and>
     (\<forall>e t. last_seen ls e = Some t \<longrightarrow> t \<le> latest_time s)"

text \<open>Every degree stored in the node table is at least 1.\<close>

definition degrees_pos :: "(string \<times> int) list \<Rightarrow> bool" where
  "degrees_pos ns \<longleftrightarrow> list_all (\<lambda>p. 1 \<le> snd p) ns"

text \<open>The bookkeeping of the degrees.  \<open>occurrences n ks\<close> counts the end points equal to
  \<open>n\<close> among the edges \<open>ks\<close> (an edge from \<open>n\<close> to \<open>n\<close> counts twice);
  \<open>edges_containing n es\<close> is the number of edges of the edge table that contain \<open>n\<close>.  A
  node table is consistent with the edges when it holds exactly the nodes that occur, each
  once and with its number of occurrences.  \<open>events\<close> are the events of the valid lines;
  \<open>proper_start\<close> says that there is one and that the first one joins two different users.\<close>

definition occurrences :: "string \<Rightarrow> edge list \<Rightarrow> nat" where
  "occurrences n ks = length [e \<leftarrow> ks. fst e = n] + length [e \<leftarrow> ks. snd e = n]"

definition edges_containing :: "string \<Rightarrow> (edge \<times> time) list \<Rightarrow> nat" where
  "edges_containing n es = length [e \<leftarrow> map fst es. fst e = n \<or> snd e = n]"

definition degree_of :: "nat \<Rightarrow> int option" where
  "degree_of c = (if c = 0 then None else Some (int c))"

definition consistent :: "edge list \<Rightarrow> (string \<times> int) list \<Rightarrow> bool" where
  "consistent ks ns \<longleftrightarrow>
     distinct ks \<and> distinct (map fst ns) \<and> (\<forall>n. map_of ns n = degree_of (occurrences n ks))"

definition events :: "line list \<Rightarrow> (edge \<times> time) list" where
  "events ls = List.map_filter edge_from_str ls"

definition proper_start :: "line list \<Rightarrow> bool" where
  "proper_start ls = (case events ls of [] \<Rightarrow> False | ev # _ \<Rightarrow> fst (fst ev) \<noteq> snd (fst ev))"

definition graph_ok :: "state \<Rightarrow> bool" where
  "graph_ok s \<longleftrightarrow> consistent (map fst (edges s)) (nodes s)"

section \<open>Properties\<close>

subsection \<open>The bootstrap loop\<close>

lemma bootstrap_Cons:
  "bootstrap (l # ls) =
     (case edge_from_str l of
        None \<Rightarrow> bootstrap ls
      | Some (edge, time_obj) \<Rightarrow> Some (first_state edge time_obj, ls))"
  by (subst bootstrap.simps) (simp add: readline_def split: option.split)

text \<open>The loop can only be left on a line that gives an edge: fixpoint induction over the
  loop, with the end of the file reading as one more line without an edge.\<close>

lemma bootstrap_Some_valid:
  assumes "bootstrap ls = Some r"
  shows "\<exists>l \<in> set ls. edge_from_str l \<noteq> None"
proof (rule bootstrap.raw_induct
    [where P = "\<lambda>ls r. \<exists>l \<in> set ls. edge_from_str l \<noteq> None", OF _ assms])
  fix b :: "line list \<Rightarrow> (state \<times> line list) option" and input_data r
  assume IH: "\<And>x y. b x = Some y \<Longrightarrow> \<exists>l \<in> set x. edge_from_str l \<noteq> None"
    and eq: "(case edge_from_str (fst (readline input_data)) of
        None \<Rightarrow> b (snd (readline input_data))
      | Some (edge, time_obj) \<Rightarrow>
          Some (first_state edge time_obj, snd (readline input_data))) = Some r"
  show "\<exists>l \<in> set input_data. edge_from_str l \<noteq> None"
  proof (cases input_data)
    case Nil
    with eq have "b [] = Some r"
      by (simp add: readline_def edge_from_str_def)
    from IH [OF this] show ?thesis by simp
  next
    case (Cons l rest)
    show ?thesis
    proof (cases "edge_from_str l")
      case None
      with eq Cons have "b rest = Some r"
        by (simp add: readline_def)
      from IH [OF this] Cons show ?thesis by auto
    next
      case (Some a)
      with Cons show ?thesis
        by (intro bexI [of _ l]) simp_all
    qed
  qed
qed

lemma bootstrap_Nil: "bootstrap [] = None"
  using bootstrap_Some_valid [of "[]"] by (cases "bootstrap []") auto

lemma bootstrap_None_iff:
  "bootstrap ls = None \<longleftrightarrow> (\<forall>l \<in> set ls. edge_from_str l = None)"
proof (induction ls)
  case Nil
  show ?case by (simp add: bootstrap_Nil)
next
  case (Cons l ls)
  then show ?case
    by (cases "edge_from_str l") (auto simp: bootstrap_Cons)
qed

lemma main_returns_iff:
  "(\<exists>r. main ls = Some r) \<longleftrightarrow> (\<exists>l \<in> set ls. edge_from_str l \<noteq> None)"
proof -
  have "(\<exists>r. main ls = Some r) \<longleftrightarrow> bootstrap ls \<noteq> None"
    by (cases "bootstrap ls") (auto simp: main_def)
  then show ?thesis
    by (simp add: bootstrap_None_iff)
qed

subsection \<open>Runs, one line at a time\<close>

lemma process_append:
  "process s (xs @ ys) = (case process s xs of Inl e \<Rightarrow> Inl e | Inr s' \<Rightarrow> process s' ys)"
  by (induction xs arbitrary: s) (auto split: sum.splits)

lemma bootstrap_append:
  "bootstrap xs = Some (s0, rest) \<Longrightarrow> bootstrap (xs @ ys) = Some (s0, rest @ ys)"
proof (induction xs)
  case Nil
  then show ?case by (simp add: bootstrap_Nil)
next
  case (Cons l xs)
  then show ?case
    by (cases "edge_from_str l") (auto simp: bootstrap_Cons)
qed

lemma bootstrap_snoc_None:
  "bootstrap xs = None \<Longrightarrow>
   bootstrap (xs @ [l]) =
     (case edge_from_str l of None \<Rightarrow> None | Some (e, t) \<Rightarrow> Some (first_state e t, []))"
proof (induction xs)
  case Nil
  show ?case by (simp add: bootstrap_Cons bootstrap_Nil split: option.split)
next
  case (Cons x xs)
  then show ?case
    by (cases "edge_from_str x") (auto simp: bootstrap_Cons)
qed

lemma main_snoc:
  "main xs = Some (Inr s) \<Longrightarrow> main (xs @ [l]) = Some (step s l)"
  by (auto simp: main_def process_append bootstrap_append split: option.splits sum.splits)

lemma main_snoc_Inl:
  "main xs = Some (Inl e) \<Longrightarrow> main (xs @ [l]) = Some (Inl e)"
  by (auto simp: main_def process_append bootstrap_append split: option.splits sum.splits)

lemma main_snoc_None:
  "main xs = None \<Longrightarrow>
   main (xs @ [l]) =
     (case edge_from_str l of None \<Rightarrow> None | Some (e, t) \<Rightarrow> Some (Inr (first_state e t)))"
  by (auto simp: main_def bootstrap_snoc_None split: option.splits)

lemma main_None_iff: "main xs = None \<longleftrightarrow> (\<forall>l \<in> set xs. edge_from_str l = None)"
proof -
  have "main xs = None \<longleftrightarrow> bootstrap xs = None"
    by (simp add: main_def split: option.splits)
  then show ?thesis
    by (simp add: bootstrap_None_iff)
qed

lemma main_induct [consumes 1, case_names first step]:
  assumes run: "main ls = Some (Inr s)"
    and first: "\<And>xs l e t. \<forall>x \<in> set xs. edge_from_str x = None \<Longrightarrow>
                  edge_from_str l = Some (e, t) \<Longrightarrow> P (xs @ [l]) (first_state e t)"
    and step: "\<And>xs l s s'. main xs = Some (Inr s) \<Longrightarrow> P xs s \<Longrightarrow> step s l = Inr s' \<Longrightarrow>
                  P (xs @ [l]) s'"
  shows "P ls s"
  using run
proof (induction ls arbitrary: s rule: rev_induct)
  case Nil
  then show ?case by (simp add: main_def bootstrap_Nil)
next
  case (snoc l xs)
  show ?case
  proof (cases "main xs")
    case None
    with snoc.prems obtain e t where "edge_from_str l = Some (e, t)" "s = first_state e t"
      by (auto simp: main_snoc_None split: option.splits)
    with None first show ?thesis
      by (simp add: main_None_iff)
  next
    case (Some r)
    show ?thesis
    proof (cases r)
      case (Inl e)
      with Some snoc.prems show ?thesis
        by (simp add: main_snoc_Inl)
    next
      case (Inr s0)
      with Some snoc.prems have "step s0 l = Inr s"
        by (simp add: main_snoc)
      with Some Inr snoc.IH [of s0] step show ?thesis
        by simp
    qed
  qed
qed

lemma reported_first: "reported (first_state e t)"
  by (cases e) (simp add: reported_def first_state_def median_def)

lemma reported_write:
  "recompute s = Inr s3 \<Longrightarrow> reported (write_median s3)"
  by (auto simp: reported_def recompute_def write_median_def split: sum.splits)

lemma reported_step:
  assumes "reported s" "step s l = Inr s'"
  shows "reported s'"
proof (cases "edge_from_str l")
  case None
  with assms show ?thesis by (simp add: step_def)
next
  case (Some a)
  obtain e t where a: "a = (e, t)" by (cases a)
  consider (A) "0 \<le> t - latest_time s" | (B) "\<not> 0 \<le> t - latest_time s" "- 60 < t - latest_time s"
    | (C) "\<not> 0 \<le> t - latest_time s" "\<not> - 60 < t - latest_time s" by blast
  then show ?thesis
  proof cases
    case A
    with assms Some a show ?thesis
      by (auto simp: step_def case_A_def reported_write split: sum.splits if_splits)
  next
    case B
    with assms Some a show ?thesis
      by (auto simp: step_def case_B_def reported_write split: sum.splits if_splits option.splits)
        (auto simp: reported_def write_median_def)
  next
    case C
    with assms Some a show ?thesis
      by (auto simp: step_def case_C_def reported_def)
  qed
qed

lemma reported_main: "main ls = Some (Inr s) \<Longrightarrow> reported s"
  by (induction rule: main_induct) (auto simp: reported_first intro: reported_step)

lemma med_str_1: "med_str 1 = ''1.00'' @ crlf"
  by code_simp

subsection \<open>The output format\<close>

lemma round_half_even_of_int: "round_half_even (of_int j) = j"
  by (simp add: round_half_even_def)

lemma percent_2f_hundredths:
  "percent_2f (of_int k / 100) =
     (if k < 0 then ''-'' else []) @ decimal (nat \<bar>k\<bar> div 100) @ ''.''
       @ [digit (nat \<bar>k\<bar> mod 100 div 10), digit (nat \<bar>k\<bar> mod 10)]"
proof -
  have "\<bar>rat_of_int k / 100\<bar> * 100 = of_int \<bar>k\<bar>"
    by simp
  then have a: "nat (round_half_even (\<bar>rat_of_int k / 100\<bar> * 100)) = nat \<bar>k\<bar>"
    by (simp only: round_half_even_of_int)
  have b: "rat_of_int k / 100 < 0 \<longleftrightarrow> k < 0"
    by simp
  show ?thesis
    by (simp only: percent_2f_def Let_def a b)
qed

lemma med_str_nonneg:
  assumes "0 \<le> m"
  shows "med_str m =
     decimal (nat \<lfloor>m * 100\<rfloor> div 100) @ ''.''
       @ [digit (nat \<lfloor>m * 100\<rfloor> mod 100 div 10), digit (nat \<lfloor>m * 100\<rfloor> mod 10)] @ crlf"
proof -
  from assms have k: "py_int (m * 100) = \<lfloor>m * 100\<rfloor>" "0 \<le> \<lfloor>m * 100\<rfloor>"
    by (simp_all add: py_int_def)
  show ?thesis
    unfolding med_str_def k(1) percent_2f_hundredths using k(2) by simp
qed

lemma med_str_3_49:
  assumes "349 / 100 \<le> m" "m < 7 / 2"
  shows "med_str m = ''3.49'' @ crlf"
proof -
  from assms have "\<lfloor>m * 100\<rfloor> = 349"
    by (intro floor_unique) simp_all
  moreover from assms have "0 \<le> m" by simp
  moreover have "decimal 3 = ''3''" "digit 4 = CHR ''4''" "digit 9 = CHR ''9''"
    by code_simp+
  ultimately show ?thesis
    by (simp add: med_str_nonneg)
qed

lemma med_str_3: "med_str 3 = ''3.00'' @ crlf"
  by code_simp

lemma med_str_3_5: "med_str (7 / 2) = ''3.50'' @ crlf"
  by code_simp

lemma percent_2f_rounds: "percent_2f (3499 / 1000) = ''3.50''"
  by code_simp

subsection \<open>The median\<close>

lemma middle_short: "length xs \<le> 2 \<Longrightarrow> middle xs = xs"
  by (simp add: middle.simps)

lemma middle_long: "2 < length xs \<Longrightarrow> middle xs = middle (butlast (tl xs))"
  by (simp add: middle.simps)

lemma nth_butlast_tl:
  "i + 2 < length xs \<Longrightarrow> butlast (tl xs) ! i = xs ! Suc i"
  by (simp add: nth_butlast nth_tl)

lemma middle_nth:
  "middle xs =
     (if length xs = 0 then []
      else if length xs mod 2 = 1 then [xs ! (length xs div 2)]
      else [xs ! (length xs div 2 - 1), xs ! (length xs div 2)])"
proof (induction xs rule: middle.induct)
  case (1 xs)
  show ?case
  proof (cases "length xs \<le> 2")
    case True
    then consider "xs = []" | a where "xs = [a]" | a b where "xs = [a, b]"
      by (cases xs; cases "tl xs"; cases "tl (tl xs)") auto
    then show ?thesis
      by cases (simp_all add: middle_short)
  next
    case False
    let ?ys = "butlast (tl xs)"
    let ?n = "length xs"
    from False have len: "length ?ys = ?n - 2" and n: "2 < ?n" and ne: "xs \<noteq> []"
      by auto
    have mid: "middle xs = middle ?ys"
      using n by (rule middle_long)
    show ?thesis
    proof (cases "?n mod 2 = 1")
      case True
      with n have "(?n - 2) mod 2 = 1" "(?n - 2) div 2 = ?n div 2 - 1" "?n - 2 \<noteq> 0"
        "Suc (?n div 2 - 1) = ?n div 2" "(?n div 2 - 1) + 2 < ?n"
        by presburger+
      with "1.IH" [OF False] len mid n ne True show ?thesis
        by (simp add: nth_butlast_tl)
    next
      case odd: False
      with n have "(?n - 2) mod 2 \<noteq> 1" "(?n - 2) div 2 = ?n div 2 - 1" "?n - 2 \<noteq> 0"
        "Suc (?n div 2 - 1) = ?n div 2" "(?n div 2 - 1) + 2 < ?n"
        "Suc (?n div 2 - 1 - 1) = ?n div 2 - 1" "(?n div 2 - 1 - 1) + 2 < ?n"
        by presburger+
      with "1.IH" [OF False] len mid n ne odd show ?thesis
        by (simp add: nth_butlast_tl)
    qed
  qed
qed

lemma median_standard:
  "median xs = (if xs = [] then Inl StatisticsError else Inr (standard_median xs))"
proof (cases "xs = []")
  case True
  then show ?thesis by (simp add: median_def)
next
  case False
  then have "length (sort xs) \<noteq> 0" by simp
  then show ?thesis
    using False unfolding median_def standard_median_def Let_def middle_nth [of "sort xs"]
    by simp
qed

subsection \<open>The edge table and the window\<close>

lemma event_times_append: "event_times (xs @ ys) e = event_times xs e @ event_times ys e"
  by (simp add: event_times_def map_filter_def)

lemma event_times_single:
  "event_times [l] e =
     (case edge_from_str l of None \<Rightarrow> [] | Some (e', t) \<Rightarrow> if e' = e then [t] else [])"
  by (simp add: event_times_def map_filter_def split: option.split)

lemma event_times_invalid:
  "\<forall>x \<in> set xs. edge_from_str x = None \<Longrightarrow> event_times xs e = []"
  by (induction xs) (simp_all add: event_times_def map_filter_def)

lemma last_seen_invalid:
  "\<forall>x \<in> set xs. edge_from_str x = None \<Longrightarrow> last_seen xs e = None"
  by (simp add: last_seen_def event_times_invalid)

lemma last_seen_snoc_None:
  "edge_from_str l = None \<Longrightarrow> last_seen (xs @ [l]) e = last_seen xs e"
  by (simp add: last_seen_def event_times_append event_times_single)

lemma last_seen_snoc_other:
  "edge_from_str l = Some (e', t) \<Longrightarrow> e' \<noteq> e \<Longrightarrow> last_seen (xs @ [l]) e = last_seen xs e"
  by (simp add: last_seen_def event_times_append event_times_single)

lemma last_seen_snoc_same:
  "edge_from_str l = Some (e, t) \<Longrightarrow>
   last_seen (xs @ [l]) e = Some (case last_seen xs e of None \<Rightarrow> t | Some t' \<Rightarrow> max t' t)"
  by (simp add: last_seen_def event_times_append event_times_single max.commute)

text \<open>The eviction loop removes from the edge table the edges it is given.\<close>

lemma evict_loop_edges:
  "evict_loop evl es ns = Inr (es', ns') \<Longrightarrow> es' = filter (\<lambda>p. fst p \<notin> set evl) es"
proof (induction evl arbitrary: es ns)
  case Nil
  then show ?case by simp
next
  case (Cons e evl)
  from Cons.prems obtain ns2 where "evict_loop evl (AList.delete e es) ns2 = Inr (es', ns')"
    by (auto split: option.splits sum.splits)
  from Cons.IH [OF this] show ?case
    by (auto simp: AList.delete_eq intro!: filter_cong)
qed

lemma set_evict_edges:
  "set (evict_edges end_time es) = {e. \<exists>t. map_of es e = Some t \<and> t \<le> end_time}"
  by (auto simp: evict_edges_def split: option.splits dest: map_of_SomeD intro: rev_image_eqI)

lemma evict_edges_map_of:
  assumes "evict s t = Inr s'"
  shows "map_of (edges s') e =
    (case map_of (edges s) e of None \<Rightarrow> None | Some t' \<Rightarrow> if t - 60 < t' then Some t' else None)"
proof -
  from assms obtain ns' where
    "evict_loop (evict_edges (t - 60) (edges s)) (edges s) (nodes s) = Inr (edges s', ns')"
    by (auto simp: evict_def split: sum.splits)
  from evict_loop_edges [OF this]
  have "map_of (edges s') = map_of (edges s) |` {e. e \<notin> set (evict_edges (t - 60) (edges s))}"
    using map_of_filter [of "\<lambda>e. e \<notin> set (evict_edges (t - 60) (edges s))" "edges s"] by simp
  then show ?thesis
    by (auto simp: set_evict_edges restrict_map_def split: option.splits)
qed

lemma evict_latest_time: "evict s t = Inr s' \<Longrightarrow> latest_time s' = t"
  by (auto simp: evict_def split: sum.splits)

lemma evict_distinct:
  "evict s t = Inr s' \<Longrightarrow> distinct (map fst (edges s)) \<Longrightarrow> distinct (map fst (edges s'))"
proof -
  assume a: "evict s t = Inr s'" and d: "distinct (map fst (edges s))"
  from a obtain ns' where
    "evict_loop (evict_edges (t - 60) (edges s)) (edges s) (nodes s) = Inr (edges s', ns')"
    by (auto simp: evict_def split: sum.splits)
  from evict_loop_edges [OF this] d show ?thesis
    by (simp add: distinct_map_filter)
qed

lemma window_first:
  assumes "\<forall>x \<in> set xs. edge_from_str x = None" "edge_from_str l = Some (e, t)"
  shows "window_inv (xs @ [l]) (first_state e t)"
proof -
  have same: "last_seen (xs @ [l]) e = Some t"
    using assms by (simp add: last_seen_snoc_same last_seen_invalid)
  have other: "last_seen (xs @ [l]) e' = None" if "e' \<noteq> e" for e'
    using assms that by (simp add: last_seen_snoc_other [of l e t e'] last_seen_invalid)
  have ls: "last_seen (xs @ [l]) e' = (if e' = e then Some t else None)" for e'
    using same other by simp
  show ?thesis
    unfolding window_inv_def ls by (simp add: first_state_def)
qed

lemma recompute_frame:
  "recompute s = Inr s3 \<Longrightarrow>
     edges s3 = edges s \<and> latest_time s3 = latest_time s \<and> nodes s3 = nodes s
     \<and> output_file s3 = output_file s \<and> med_degree_str s3 = med_degree_str s"
  by (auto simp: recompute_def split: sum.splits)

lemma case_A_same_time:
  assumes "case_A s e t = Inr s'" "t = latest_time s"
  shows "latest_time s' = latest_time s \<and> edges s' = AList.update e t (edges s)"
  using assms
  by (auto simp: case_A_def admit_def write_median_def split: sum.splits if_splits
      dest!: recompute_frame)

lemma case_A_later:
  assumes "case_A s e t = Inr s'" "latest_time s < t"
  shows "latest_time s' = t \<and>
    (\<forall>e'. map_of (edges s') e' =
       (case ((map_of (edges s))(e \<mapsto> t)) e' of
          None \<Rightarrow> None | Some t' \<Rightarrow> if t - 60 < t' then Some t' else None)) \<and>
    (distinct (map fst (edges s)) \<longrightarrow> distinct (map fst (edges s')))"
proof -
  from assms obtain s2 s3 where ev: "evict (admit s e t) t = Inr s2"
    and re: "recompute s2 = Inr s3" and s': "s' = write_median s3"
    by (auto simp: case_A_def split: sum.splits if_splits)
  have ed: "edges (admit s e t) = AList.update e t (edges s)"
    by (simp add: admit_def)
  from recompute_frame [OF re] s' have fr: "edges s' = edges s2" "latest_time s' = latest_time s2"
    by (simp_all add: write_median_def)
  show ?thesis
    using evict_edges_map_of [OF ev] evict_latest_time [OF ev] evict_distinct [OF ev]
    by (simp add: fr ed AList.update_conv' AList.distinct_update del: fun_upd_apply)
qed

lemma case_B_frame:
  assumes "case_B s e t = Inr s'"
  shows "latest_time s' = latest_time s \<and>
    edges s' =
      (case map_of (edges s) e of
         Some t0 \<Rightarrow> if t0 < t then AList.update e t (edges s) else edges s
       | None \<Rightarrow> AList.update e t (edges s))"
  using assms
  by (auto simp: case_B_def admit_def write_median_def split: sum.splits if_splits option.splits
      dest!: recompute_frame)

lemma window_step:
  assumes inv: "window_inv xs s" and st: "step s l = Inr s'"
  shows "window_inv (xs @ [l]) s'"
proof (cases "edge_from_str l")
  case None
  with st have "s' = s" by (simp add: step_def)
  with inv None show ?thesis
    by (simp add: window_inv_def last_seen_snoc_None)
next
  case (Some a)
  obtain e t where l: "edge_from_str l = Some (e, t)"
    using Some by (cases a) simp
  from inv have dist: "distinct (map fst (edges s))"
    and tab: "\<And>e'. map_of (edges s) e' =
        (case last_seen xs e' of None \<Rightarrow> None
         | Some t' \<Rightarrow> if latest_time s - 60 < t' then Some t' else None)"
    and le: "\<And>e' t'. last_seen xs e' = Some t' \<Longrightarrow> t' \<le> latest_time s"
    unfolding window_inv_def by blast+
  have other: "last_seen (xs @ [l]) e' = last_seen xs e'" if "e' \<noteq> e" for e'
    using l that by (simp add: last_seen_snoc_other [of l e t e'])
  have same: "last_seen (xs @ [l]) e = Some (case last_seen xs e of None \<Rightarrow> t | Some t' \<Rightarrow> max t' t)"
    using l by (rule last_seen_snoc_same)
  consider (later) "latest_time s < t" | (equal) "t = latest_time s"
    | (B) "t < latest_time s" "latest_time s - 60 < t" | (C) "t \<le> latest_time s - 60"
    by linarith
  then show ?thesis
  proof cases
    case later
    with st l have "case_A s e t = Inr s'" by (simp add: step_def)
    from case_A_later [OF this later] dist
    have lt: "latest_time s' = t" and d': "distinct (map fst (edges s'))"
      and tab': "\<And>e'. map_of (edges s') e' =
       (case ((map_of (edges s))(e \<mapsto> t)) e' of
          None \<Rightarrow> None | Some t' \<Rightarrow> if t - 60 < t' then Some t' else None)"
      by blast+
    have new: "last_seen (xs @ [l]) e = Some t"
      using same le [of e] later by (auto split: option.splits)
    have "map_of (edges s') e' =
        (case last_seen (xs @ [l]) e' of None \<Rightarrow> None
         | Some t' \<Rightarrow> if latest_time s' - 60 < t' then Some t' else None)" for e'
    proof (cases "e' = e")
      case True
      then show ?thesis by (simp add: tab' new lt)
    next
      case False
      then show ?thesis
        using later by (auto simp: tab' other lt tab split: option.splits)
    qed
    moreover have "t' \<le> latest_time s'" if "last_seen (xs @ [l]) e' = Some t'" for e' t'
      using that le [of e' t'] new other [of e'] later lt by (cases "e' = e") auto
    ultimately show ?thesis
      using d' by (simp add: window_inv_def)
  next
    case equal
    with st l have "case_A s e t = Inr s'" by (simp add: step_def)
    from case_A_same_time [OF this equal]
    have lt: "latest_time s' = latest_time s" and ed: "edges s' = AList.update e t (edges s)"
      by simp_all
    have new: "last_seen (xs @ [l]) e = Some t"
      using same le [of e] equal by (auto split: option.splits)
    have "map_of (edges s') e' =
        (case last_seen (xs @ [l]) e' of None \<Rightarrow> None
         | Some t' \<Rightarrow> if latest_time s' - 60 < t' then Some t' else None)" for e'
    proof (cases "e' = e")
      case True
      then show ?thesis using equal by (simp add: ed AList.update_conv' new lt)
    next
      case False
      then show ?thesis
        by (auto simp: ed AList.update_conv' other lt tab split: option.splits)
    qed
    moreover have "t' \<le> latest_time s'" if "last_seen (xs @ [l]) e' = Some t'" for e' t'
      using that le [of e' t'] new other [of e'] equal lt by (cases "e' = e") auto
    ultimately show ?thesis
      using dist by (simp add: window_inv_def ed AList.distinct_update)
  next
    case B
    with st l have "case_B s e t = Inr s'" by (simp add: step_def)
    from case_B_frame [OF this]
    have lt: "latest_time s' = latest_time s" and ed: "edges s' =
      (case map_of (edges s) e of
         Some t0 \<Rightarrow> if t0 < t then AList.update e t (edges s) else edges s
       | None \<Rightarrow> AList.update e t (edges s))"
      by simp_all
    have d': "distinct (map fst (edges s'))"
      using dist by (simp add: ed AList.distinct_update split: option.splits)
    have "map_of (edges s') e' =
        (case last_seen (xs @ [l]) e' of None \<Rightarrow> None
         | Some t' \<Rightarrow> if latest_time s' - 60 < t' then Some t' else None)" for e'
    proof (cases "e' = e")
      case True
      show ?thesis
        using B tab [of e] unfolding True same lt ed
        by (auto simp: AList.update_conv' split: option.splits if_splits)
    next
      case False
      then show ?thesis
        by (auto simp: ed AList.update_conv' other lt tab split: option.splits)
    qed
    moreover have "t' \<le> latest_time s'" if "last_seen (xs @ [l]) e' = Some t'" for e' t'
      using that le [of e'] same other [of e'] B lt
      by (cases "e' = e") (auto split: option.splits)
    ultimately show ?thesis
      using d' by (simp add: window_inv_def)
  next
    case C
    with st l have s': "s' = case_C s" by (simp add: step_def)
    then have lt: "latest_time s' = latest_time s" and ed: "edges s' = edges s"
      by (simp_all add: case_C_def)
    have "map_of (edges s') e' =
        (case last_seen (xs @ [l]) e' of None \<Rightarrow> None
         | Some t' \<Rightarrow> if latest_time s' - 60 < t' then Some t' else None)" for e'
    proof (cases "e' = e")
      case True
      show ?thesis
        using C tab [of e] unfolding True same lt ed
        by (auto split: option.splits if_splits)
    next
      case False
      then show ?thesis
        by (auto simp: ed other lt tab split: option.splits)
    qed
    moreover have "t' \<le> latest_time s'" if "last_seen (xs @ [l]) e' = Some t'" for e' t'
      using that le [of e'] same other [of e'] C lt
      by (cases "e' = e") (auto split: option.splits)
    ultimately show ?thesis
      using dist by (simp add: window_inv_def ed)
  qed
qed

lemma window_main: "main ls = Some (Inr s) \<Longrightarrow> window_inv ls s"
  by (induction rule: main_induct) (auto intro: window_first window_step)

subsection \<open>Stored degrees and the lines written\<close>

lemma set_update_cases:
  "p \<in> set (AList.update k v al) \<Longrightarrow> p = (k, v) \<or> p \<in> set al"
  by (induction al) (auto split: if_splits)

lemma degrees_pos_update:
  "degrees_pos ns \<Longrightarrow> 1 \<le> d \<Longrightarrow> degrees_pos (AList.update n d ns)"
  by (auto simp: degrees_pos_def list_all_iff dest: set_update_cases)

lemma degrees_pos_delete: "degrees_pos ns \<Longrightarrow> degrees_pos (AList.delete n ns)"
  by (auto simp: degrees_pos_def list_all_iff AList.delete_eq)

lemma degrees_pos_lookup: "degrees_pos ns \<Longrightarrow> map_of ns n = Some d \<Longrightarrow> 1 \<le> d"
  by (force simp: degrees_pos_def list_all_iff dest: map_of_SomeD)

lemma degrees_pos_add_node: "degrees_pos ns \<Longrightarrow> degrees_pos (add_node n ns)"
  by (auto simp: add_node_def split: option.splits
      intro!: degrees_pos_update dest: degrees_pos_lookup)

lemma degrees_pos_add_nodes: "degrees_pos ns \<Longrightarrow> degrees_pos (add_nodes e ns)"
  by (simp add: add_nodes_def degrees_pos_add_node)

lemma degrees_pos_drop_node:
  "degrees_pos ns \<Longrightarrow> drop_node n ns = Inr ns' \<Longrightarrow> degrees_pos ns'"
  by (auto simp: drop_node_def split: option.splits if_splits
      intro!: degrees_pos_update degrees_pos_delete dest: degrees_pos_lookup)

lemma degrees_pos_evict_loop:
  "degrees_pos ns \<Longrightarrow> evict_loop evl es ns = Inr (es', ns') \<Longrightarrow> degrees_pos ns'"
proof (induction evl arbitrary: es ns)
  case Nil
  then show ?case by simp
next
  case (Cons e evl)
  from Cons.prems(2) obtain ns1 ns2 where
    d1: "drop_node (fst e) ns = Inr ns1" and d2: "drop_node (snd e) ns1 = Inr ns2"
    and r: "evict_loop evl (AList.delete e es) ns2 = Inr (es', ns')"
    by (auto split: option.splits sum.splits)
  from Cons.prems(1) d1 have "degrees_pos ns1" by (rule degrees_pos_drop_node)
  then have "degrees_pos ns2" using d2 by (rule degrees_pos_drop_node)
  then show ?case using r by (rule Cons.IH)
qed

lemma degrees_pos_evict:
  "degrees_pos (nodes s) \<Longrightarrow> evict s t = Inr s' \<Longrightarrow> degrees_pos (nodes s')"
  by (auto simp: evict_def split: sum.splits dest: degrees_pos_evict_loop)

lemma degrees_pos_admit: "degrees_pos (nodes s) \<Longrightarrow> degrees_pos (nodes (admit s e t))"
  by (simp add: admit_def degrees_pos_add_nodes)

lemma degrees_pos_step:
  assumes "degrees_pos (nodes s)" "step s l = Inr s'"
  shows "degrees_pos (nodes s')"
proof (cases "edge_from_str l")
  case None
  with assms show ?thesis by (simp add: step_def)
next
  case (Some a)
  obtain e t where l: "edge_from_str l = Some (e, t)"
    using Some by (cases a) simp
  note adm = degrees_pos_admit [OF assms(1), of e t]
  consider (A) "0 \<le> t - latest_time s" | (B) "\<not> 0 \<le> t - latest_time s" "- 60 < t - latest_time s"
    | (C) "\<not> 0 \<le> t - latest_time s" "\<not> - 60 < t - latest_time s" by blast
  then show ?thesis
  proof cases
    case A
    with assms(2) l obtain s2 s3 where
      s2: "(if 0 < t - latest_time s then evict (admit s e t) t else Inr (admit s e t)) = Inr s2"
      and re: "recompute s2 = Inr s3" and s': "s' = write_median s3"
      by (auto simp: step_def case_A_def split: sum.splits)
    from s2 adm have "degrees_pos (nodes s2)"
      by (auto split: if_splits dest: degrees_pos_evict)
    with recompute_frame [OF re] s' show ?thesis
      by (simp add: write_median_def)
  next
    case B
    with assms(2) l have cb: "case_B s e t = Inr s'" by (simp add: step_def)
    show ?thesis
    proof (cases "map_of (edges s) e")
      case None
      with cb obtain s3 where re: "recompute (admit s e t) = Inr s3" and s': "s' = write_median s3"
        by (auto simp: case_B_def split: sum.splits)
      with recompute_frame [OF re] adm show ?thesis
        by (simp add: write_median_def)
    next
      case (Some t0)
      with cb assms(1) show ?thesis
        by (auto simp: case_B_def write_median_def split: if_splits)
    qed
  next
    case C
    with assms l show ?thesis by (auto simp: step_def case_C_def)
  qed
qed

lemma degrees_pos_first: "degrees_pos (nodes (first_state e t))"
  by (simp add: first_state_def degrees_pos_def)

lemma degrees_pos_main: "main ls = Some (Inr s) \<Longrightarrow> degrees_pos (nodes s)"
  by (induction rule: main_induct) (auto intro: degrees_pos_first degrees_pos_step)

lemma median_ge_1:
  assumes "median xs = Inr m" "\<forall>x \<in> set xs. 1 \<le> x"
  shows "1 \<le> m"
proof -
  from assms(1) have ne: "xs \<noteq> []"
    by (auto simp: median_def)
  let ?d = "sort xs" and ?n = "length xs"
  have n: "0 < ?n" using ne by simp
  have nth: "1 \<le> ?d ! i" if "i < ?n" for i
  proof -
    from that have "?d ! i \<in> set ?d" by (intro nth_mem) simp
    with assms(2) show ?thesis by simp
  qed
  from n have "?n div 2 < ?n" "?n div 2 - 1 < ?n" by presburger+
  then have a: "(1::rat) \<le> of_int (?d ! (?n div 2))" and b: "(1::rat) \<le> of_int (?d ! (?n div 2 - 1))"
    using nth by simp_all
  from assms(1) ne have "m = of_int (?d ! (?n div 2)) \<or>
      m = (of_int (?d ! (?n div 2 - 1)) + of_int (?d ! (?n div 2))) / 2"
    by (auto simp: median_def Let_def split: if_splits)
  with a b show ?thesis by auto
qed

lemma median_degree_ge_1: "main ls = Some (Inr s) \<Longrightarrow> 1 \<le> median_degree s"
proof -
  assume r: "main ls = Some (Inr s)"
  from reported_main [OF r] have "median (map snd (nodes s)) = Inr (median_degree s)"
    by (simp add: reported_def)
  moreover from degrees_pos_main [OF r] have "\<forall>x \<in> set (map snd (nodes s)). 1 \<le> x"
    by (auto simp: degrees_pos_def list_all_iff)
  ultimately show ?thesis by (rule median_ge_1)
qed

lemma py_int_abs: "\<bar>py_int x\<bar> = \<lfloor>\<bar>x\<bar>\<rfloor>"
proof (cases "0 \<le> x")
  case True
  then show ?thesis by (simp add: py_int_def)
next
  case False
  then have "\<lceil>x\<rceil> \<le> 0" by (simp add: ceiling_le_iff)
  with False show ?thesis
    by (simp add: py_int_def ceiling_def)
qed

lemma py_int_neg: "py_int x < 0 \<longleftrightarrow> x \<le> - 1"
proof (cases "0 \<le> x")
  case True
  then show ?thesis by (simp add: py_int_def)
next
  case False
  then show ?thesis
    by (simp add: py_int_def ceiling_less_iff)
qed

lemma med_str_general:
  "med_str m =
     (if m \<le> - (1 / 100) then ''-'' else []) @ decimal (nat \<lfloor>\<bar>m\<bar> * 100\<rfloor> div 100) @ ''.''
       @ [digit (nat \<lfloor>\<bar>m\<bar> * 100\<rfloor> mod 100 div 10), digit (nat \<lfloor>\<bar>m\<bar> * 100\<rfloor> mod 10)] @ crlf"
proof -
  have a: "\<bar>py_int (m * 100)\<bar> = \<lfloor>\<bar>m\<bar> * 100\<rfloor>"
    by (simp add: py_int_abs abs_mult)
  have "m * 100 \<le> - 1 \<longleftrightarrow> m \<le> - (1 / 100)"
    by (rule iffI; linarith)
  then have b: "py_int (m * 100) < 0 \<longleftrightarrow> m \<le> - (1 / 100)"
    by (simp only: py_int_neg)
  show ?thesis
    by (simp only: med_str_def percent_2f_hundredths a b append_assoc)
qed

lemma admit_frame:
  "output_file (admit s e t) = output_file s" "latest_time (admit s e t) = latest_time s"
  "median_degree (admit s e t) = median_degree s" "med_degree_str (admit s e t) = med_degree_str s"
  "edges (admit s e t) = AList.update e t (edges s)"
  by (simp_all add: admit_def)

lemma evict_frame:
  "evict s t = Inr s' \<Longrightarrow>
     output_file s' = output_file s \<and> median_degree s' = median_degree s
     \<and> med_degree_str s' = med_degree_str s"
  by (auto simp: evict_def split: sum.splits)

lemma step_output:
  assumes "step s l = Inr s'"
  shows "output_file s' =
    (if edge_from_str l = None then output_file s else output_file s @ [med_degree_str s'])"
proof (cases "edge_from_str l")
  case None
  with assms show ?thesis by (simp add: step_def)
next
  case (Some a)
  obtain e t where l: "edge_from_str l = Some (e, t)"
    using Some by (cases a) simp
  with assms show ?thesis
    by (auto simp: step_def case_A_def case_B_def case_C_def write_median_def admit_frame
        split: sum.splits if_splits option.splits dest!: recompute_frame evict_frame)
qed

lemma output_lines_format:
  "main ls = Some (Inr s) \<Longrightarrow> list_all (\<lambda>ln. \<exists>m. 1 \<le> m \<and> ln = med_str m) (output_file s)"
proof (induction rule: main_induct)
  case (first xs l e t)
  have "\<exists>m::rat. 1 \<le> m \<and> med_str 1 = med_str m"
    by (rule exI [of _ 1]) simp
  then show ?case by (simp add: first_state_def)
next
  case (step xs l s s')
  from step.hyps(1) have m: "1 \<le> median_degree s" by (rule median_degree_ge_1)
  from step.hyps(1) have rp: "reported s" by (rule reported_main)
  from main_snoc [OF step.hyps(1), of l] step.hyps(2)
  have r': "main (xs @ [l]) = Some (Inr s')" by simp
  then have rp': "reported s'" and m': "1 \<le> median_degree s'"
    by (rule reported_main, rule median_degree_ge_1)
  have "output_file s' = output_file s \<or> output_file s' = output_file s @ [med_degree_str s']"
    using step_output [OF step.hyps(2)] by (simp split: if_splits)
  moreover have "\<exists>m. 1 \<le> m \<and> med_degree_str s' = med_str m"
    using rp' m' by (auto simp: reported_def)
  ultimately show ?case
    using step.IH by auto
qed

subsection \<open>The formatted median read as a numeral\<close>

lemma digits_0_9: "map digit [0..<10] = ''0123456789''"
  by code_simp

lemma digit_values_0_9: "map digit_value ''0123456789'' = [0..<10]"
  by code_simp

lemma digit_nth:
  assumes "d < 10"
  shows "digit d = ''0123456789'' ! d"
proof -
  from assms have "map digit [0..<10] ! d = digit d"
    by (simp del: upt_Suc)
  then show ?thesis by (simp only: digits_0_9)
qed

lemma is_digit_digit: "d < 10 \<Longrightarrow> is_digit (digit d)"
proof -
  assume d: "d < 10"
  then have "''0123456789'' ! d \<in> set ''0123456789''"
    by (intro nth_mem) simp
  with d show ?thesis by (simp only: is_digit_def digit_nth)
qed

lemma digit_value_digit:
  assumes "d < 10"
  shows "digit_value (digit d) = d"
proof -
  from assms have "map digit_value ''0123456789'' ! d = digit_value (''0123456789'' ! d)"
    by (intro nth_map) simp
  moreover from assms have "[0..<10] ! d = d"
    by (simp del: upt_Suc)
  ultimately show ?thesis
    using assms by (simp only: digit_nth digit_values_0_9)
qed

lemma decimal_value_snoc: "decimal_value (w @ [c]) = 10 * decimal_value w + digit_value c"
  by (simp add: decimal_value_def)

lemma decimal_value_single: "decimal_value [c] = digit_value c"
  by (simp add: decimal_value_def)

lemma decimal_nonempty: "decimal n \<noteq> []"
  by (subst decimal.simps) simp

lemma decimal_digits: "list_all is_digit (decimal n)"
proof (induction n rule: decimal.induct)
  case (1 n)
  show ?case
  proof (cases "n < 10")
    case True
    then show ?thesis by (subst decimal.simps) (simp add: is_digit_digit)
  next
    case False
    with "1.IH" show ?thesis
      by (subst decimal.simps) (simp add: is_digit_digit)
  qed
qed

lemma decimal_value_decimal: "decimal_value (decimal n) = n"
proof (induction n rule: decimal.induct)
  case (1 n)
  show ?case
  proof (cases "n < 10")
    case True
    then show ?thesis
      by (subst decimal.simps) (simp add: decimal_value_single digit_value_digit)
  next
    case False
    with "1.IH" show ?thesis
      by (subst decimal.simps) (simp add: decimal_value_snoc digit_value_digit)
  qed
qed

lemma decimal_leading_zero: "hd (decimal n) = CHR ''0'' \<Longrightarrow> decimal n = ''0''"
proof (induction n rule: decimal.induct)
  case (1 n)
  show ?case
  proof (cases "n < 10")
    case True
    with "1.prems" have "digit n = CHR ''0''"
      by (subst (asm) decimal.simps) simp
    with True show ?thesis
      by (subst decimal.simps) simp
  next
    case False
    with "1.prems" have "hd (decimal (n div 10)) = CHR ''0''"
      by (subst (asm) decimal.simps) (simp add: decimal_nonempty)
    from "1.IH" [OF False this] have "decimal_value (decimal (n div 10)) = decimal_value ''0''"
      by simp
    then have "n div 10 = 0"
      by (simp only: decimal_value_decimal) (simp add: decimal_value_def digit_value_def)
    with False show ?thesis by simp
  qed
qed

lemma hundredths_value:
  "decimal_value (decimal (h div 100)) * 100
     + decimal_value [digit (h mod 100 div 10), digit (h mod 10)] = h"
proof -
  have lt: "h mod 100 div 10 < 10" "h mod 10 < 10"
    by simp_all
  have "decimal_value [digit (h mod 100 div 10), digit (h mod 10)]
      = 10 * digit_value (digit (h mod 100 div 10)) + digit_value (digit (h mod 10))"
    using decimal_value_snoc [of "[digit (h mod 100 div 10)]" "digit (h mod 10)"]
    by (simp only: decimal_value_single append_Cons append_Nil)
  also have "\<dots> = 10 * (h mod 100 div 10) + h mod 10"
    by (simp only: digit_value_digit [OF lt(1)] digit_value_digit [OF lt(2)])
  also have "\<dots> = 10 * (h mod 100 div 10) + h mod 100 mod 10"
    by (simp add: mod_mod_cancel)
  also have "\<dots> = h mod 100"
    by (rule mult_div_mod_eq)
  finally have "decimal_value [digit (h mod 100 div 10), digit (h mod 10)] = h mod 100" .
  then have "decimal_value (decimal (h div 100)) * 100
     + decimal_value [digit (h mod 100 div 10), digit (h mod 10)] = h div 100 * 100 + h mod 100"
    by (simp only: decimal_value_decimal)
  also have "\<dots> = h"
    by (rule div_mult_mod_eq)
  finally show ?thesis .
qed

lemma hundredths_digits:
  "list_all is_digit (decimal (h div 100) @ [digit (h mod 100 div 10), digit (h mod 10)])"
proof -
  have a: "h mod 100 div 10 < 10" and b: "h mod 10 < 10"
    by simp_all
  have "is_digit (digit (h mod 100 div 10))" "is_digit (digit (h mod 10))"
    by (rule is_digit_digit [OF a], rule is_digit_digit [OF b])
  then show ?thesis
    using decimal_digits [of "h div 100"] by (simp only: list_all_append list.pred_inject simp_thms)
qed

lemma med_str_reads_back:
  "\<exists>w d1 d2.
     med_str m = (if m \<le> - (1 / 100) then ''-'' else []) @ w @ ''.'' @ [d1, d2] @ crlf \<and>
     list_all is_digit (w @ [d1, d2]) \<and> w \<noteq> [] \<and> (w = ''0'' \<or> hd w \<noteq> CHR ''0'') \<and>
     decimal_value w * 100 + decimal_value [d1, d2] = nat \<lfloor>\<bar>m\<bar> * 100\<rfloor>"
proof (intro exI conjI)
  let ?h = "nat \<lfloor>\<bar>m\<bar> * 100\<rfloor>"
  show "med_str m = (if m \<le> - (1 / 100) then ''-'' else []) @ decimal (?h div 100) @ ''.''
      @ [digit (?h mod 100 div 10), digit (?h mod 10)] @ crlf"
    by (rule med_str_general)
  show "list_all is_digit (decimal (?h div 100) @ [digit (?h mod 100 div 10), digit (?h mod 10)])"
    by (rule hundredths_digits)
  show "decimal (?h div 100) \<noteq> []"
    by (rule decimal_nonempty)
  show "decimal (?h div 100) = ''0'' \<or> hd (decimal (?h div 100)) \<noteq> CHR ''0''"
    using decimal_leading_zero [of "?h div 100"] by blast
  show "decimal_value (decimal (?h div 100)) * 100
      + decimal_value [digit (?h mod 100 div 10), digit (?h mod 10)] = ?h"
    by (rule hundredths_value)
qed

lemma med_str_12: "med_str 12 = ''12.00'' @ crlf"
  by code_simp

lemma med_str_12_5: "med_str (25 / 2) = ''12.50'' @ crlf"
  by code_simp

subsection \<open>Termination\<close>

text \<open>
  C2 (the program ends on every finite input; an input without any valid event, the empty one
  included, is read to its end, nothing is written and processing ends).  The program does
  not do this: on the empty input the bootstrap loop \<^verbatim>\<open>while median_degree == 0\<close> reads the
  end of the file again and again, and the run never returns.
\<close>

theorem main_empty_input_never_returns: "main [] = None"
  by (simp add: main_def bootstrap_Nil)

subsection \<open>The end-to-end scenario\<close>

lemmas run_defs =
  main_def bootstrap_Cons edge_from_str_def sorted_pair_def first_state_def step_def
  case_A_def case_B_def case_C_def admit_def add_nodes_def add_node_def evict_def
  evict_edges_def drop_node_def recompute_def median_def write_median_def emitted_def

text \<open>
  C1, as the claim states it: the events (A,B) at \<open>t0\<close>, (B,C) at \<open>t0 + 10\<close> and (A,C) at
  \<open>t0 + 70\<close> give the outputs 1.00, 1.50, 1.00.  This fails at \<open>t0 = 0\<close>: after the second
  event the degrees are A:1, B:2, C:1, whose median is 1, so the second line is 1.00.
\<close>

theorem scenario_outputs_counterexample:
  "emitted (main [Match 0 ''A'' ''B'', Match 10 ''B'' ''C'', Match 70 ''A'' ''C''])
     = [''1.00'' @ crlf, ''1.00'' @ crlf, ''1.00'' @ crlf]
   \<and> emitted (main [Match 0 ''A'' ''B'', Match 10 ''B'' ''C'', Match 70 ''A'' ''C''])
     \<noteq> [''1.00'' @ crlf, ''1.50'' @ crlf, ''1.00'' @ crlf]"
  by (simp add: run_defs med_str_1)

text \<open>
  C1, amended: for every start time \<open>t0\<close> the three events give the outputs 1.00, 1.00, 1.00.
  After the second event both edges are in the table, with the degrees A:1, B:2, C:1; the
  third event moves the end of the window to \<open>t0 + 10\<close>, evicts (A,B) and (B,C) and leaves
  the edge (A,C) alone, with A and C of degree 1.
\<close>

theorem scenario_three_events:
  "main [Match t0 ''A'' ''B'', Match (t0 + 10) ''B'' ''C''] =
     Some (Inr \<lparr>latest_time = t0 + 10,
                 edges = [((''A'', ''B''), t0), ((''B'', ''C''), t0 + 10)],
                 nodes = [(''A'', 1), (''B'', 2), (''C'', 1)],
                 median_degree = 1,
                 med_degree_str = ''1.00'' @ crlf,
                 output_file = [''1.00'' @ crlf, ''1.00'' @ crlf]\<rparr>)
   \<and> main [Match t0 ''A'' ''B'', Match (t0 + 10) ''B'' ''C'', Match (t0 + 70) ''A'' ''C''] =
     Some (Inr \<lparr>latest_time = t0 + 70,
                 edges = [((''A'', ''C''), t0 + 70)],
                 nodes = [(''A'', 1), (''C'', 1)],
                 median_degree = 1,
                 med_degree_str = ''1.00'' @ crlf,
                 output_file = [''1.00'' @ crlf, ''1.00'' @ crlf, ''1.00'' @ crlf]\<rparr>)"
  by (simp add: run_defs med_str_1)

subsection \<open>Events that leave the graph as it is\<close>

lemma stored_le_latest:
  assumes "main ls = Some (Inr s)" "map_of (edges s) e = Some t"
  shows "t \<le> latest_time s \<and> latest_time s - 60 < t \<and> last_seen ls e = Some t"
proof -
  from window_main [OF assms(1)]
  have tab: "map_of (edges s) e =
        (case last_seen ls e of None \<Rightarrow> None
         | Some t' \<Rightarrow> if latest_time s - 60 < t' then Some t' else None)"
    and le: "\<And>t'. last_seen ls e = Some t' \<Longrightarrow> t' \<le> latest_time s"
    unfolding window_inv_def by blast+
  from tab assms(2) have "last_seen ls e = Some t" "latest_time s - 60 < t"
    by (auto split: option.splits if_splits)
  with le show ?thesis by simp
qed

lemma reemit:
  assumes "reported s"
  shows "write_median s = s\<lparr>output_file := output_file s @ [last (output_file s)]\<rparr>"
    and "case_C s = s\<lparr>output_file := output_file s @ [last (output_file s)]\<rparr>"
    and "recompute s = Inr s"
  using assms by (simp_all add: reported_def write_median_def case_C_def recompute_def)

lemma med_str_1_5: "med_str (3 / 2) = ''1.50'' @ crlf"
  by code_simp

text \<open>
  C8 (an event at least 60 seconds older than \<^verbatim>\<open>latest_time\<close> changes nothing and the last
  line is written again).  For a run on \<open>ls\<close> that ended in state \<open>s\<close> and a next line with
  a valid event at time \<open>t\<close>, \<open>t - latest_time s \<le> -60\<close>: the run on \<open>ls @ [l]\<close> ends in
  the state \<open>s\<close> with one more output line, equal to the last line written before.  The
  clock, the edge table with its time stamps, the node table, the median and the formatted
  median are those of \<open>s\<close>.
\<close>

theorem out_of_window_event_is_ignored:
  assumes "main ls = Some (Inr s)" and "edge_from_str l = Some (e, t)"
    and "t - latest_time s \<le> - 60"
  shows "main (ls @ [l]) = Some (Inr (s\<lparr>output_file := output_file s @ [last (output_file s)]\<rparr>))"
proof -
  from assms(2,3) have "step s l = Inr (case_C s)"
    by (simp add: step_def)
  with reemit(2) [OF reported_main [OF assms(1)]] main_snoc [OF assms(1), of l]
  show ?thesis by simp
qed

theorem out_of_window_event_witness:
  "edge_from_str (Match 40 ''A'' ''E'') = Some ((''A'', ''E''), 40) \<and>
   main [Match 0 ''A'' ''B'', Match 100 ''C'' ''D''] =
     Some (Inr \<lparr>latest_time = 100, edges = [((''C'', ''D''), 100)],
                 nodes = [(''C'', 1), (''D'', 1)], median_degree = 1,
                 med_degree_str = ''1.00'' @ crlf,
                 output_file = [''1.00'' @ crlf, ''1.00'' @ crlf]\<rparr>) \<and>
   main ([Match 0 ''A'' ''B'', Match 100 ''C'' ''D''] @ [Match 40 ''A'' ''E'']) =
     Some (Inr \<lparr>latest_time = 100, edges = [((''C'', ''D''), 100)],
                 nodes = [(''C'', 1), (''D'', 1)], median_degree = 1,
                 med_degree_str = ''1.00'' @ crlf,
                 output_file = [''1.00'' @ crlf, ''1.00'' @ crlf, ''1.00'' @ crlf]\<rparr>)"
proof -
  have r: "main [Match 0 ''A'' ''B'', Match 100 ''C'' ''D''] =
     Some (Inr \<lparr>latest_time = 100, edges = [((''C'', ''D''), 100)],
                 nodes = [(''C'', 1), (''D'', 1)], median_degree = 1,
                 med_degree_str = ''1.00'' @ crlf,
                 output_file = [''1.00'' @ crlf, ''1.00'' @ crlf]\<rparr>)"
    by (simp add: run_defs med_str_1)
  have l: "edge_from_str (Match 40 ''A'' ''E'') = Some ((''A'', ''E''), 40)"
    by (simp add: edge_from_str_def sorted_pair_def)
  from out_of_window_event_is_ignored [OF r l] r l show ?thesis
    by simp
qed

text \<open>
  C7 (replaying an event whose edge is in the edge table, with a time stamp not later than
  the stored one and inside the window, leaves every degree as it is and the same median is
  reported).  The run on \<open>ls @ [l]\<close> ends in the state \<open>s\<close> of the run on \<open>ls\<close> with one
  more output line, equal to the last one written before; the node table (and also the edge
  table, the clock and the median) are unchanged.
\<close>

theorem replayed_event_changes_nothing:
  assumes "main ls = Some (Inr s)" and "edge_from_str l = Some (e, t)"
    and "map_of (edges s) e = Some t0" and "t \<le> t0" and "latest_time s - 60 < t"
  shows "main (ls @ [l]) = Some (Inr (s\<lparr>output_file := output_file s @ [last (output_file s)]\<rparr>))"
proof -
  note rp = reported_main [OF assms(1)]
  from stored_le_latest [OF assms(1,3)] have t0: "t0 \<le> latest_time s" by simp
  have "step s l = Inr (s\<lparr>output_file := output_file s @ [last (output_file s)]\<rparr>)"
  proof (cases "t = latest_time s")
    case True
    with assms(4) t0 have "t0 = t" by simp
    with assms(3) have "AList.update e t (edges s) = edges s"
      by (simp add: AList.update_triv)
    with assms(3) have "admit s e t = s"
      by (simp add: admit_def)
    with True assms(2) reemit [OF rp] show ?thesis
      by (simp add: step_def case_A_def)
  next
    case False
    with assms(4) t0 have "\<not> 0 \<le> t - latest_time s" by simp
    with assms(2,3,4,5) reemit [OF rp] show ?thesis
      by (simp add: step_def case_B_def)
  qed
  with main_snoc [OF assms(1), of l] show ?thesis by simp
qed

theorem replayed_event_witness:
  "edge_from_str (Match 0 ''B'' ''A'') = Some ((''A'', ''B''), 0) \<and>
   main [Match 0 ''A'' ''B'', Match 30 ''B'' ''C''] =
     Some (Inr \<lparr>latest_time = 30, edges = [((''A'', ''B''), 0), ((''B'', ''C''), 30)],
                 nodes = [(''A'', 1), (''B'', 2), (''C'', 1)], median_degree = 1,
                 med_degree_str = ''1.00'' @ crlf,
                 output_file = [''1.00'' @ crlf, ''1.00'' @ crlf]\<rparr>) \<and>
   main ([Match 0 ''A'' ''B'', Match 30 ''B'' ''C''] @ [Match 0 ''B'' ''A'']) =
     Some (Inr \<lparr>latest_time = 30, edges = [((''A'', ''B''), 0), ((''B'', ''C''), 30)],
                 nodes = [(''A'', 1), (''B'', 2), (''C'', 1)], median_degree = 1,
                 med_degree_str = ''1.00'' @ crlf,
                 output_file = [''1.00'' @ crlf, ''1.00'' @ crlf, ''1.00'' @ crlf]\<rparr>)"
proof -
  have r: "main [Match 0 ''A'' ''B'', Match 30 ''B'' ''C''] =
     Some (Inr \<lparr>latest_time = 30, edges = [((''A'', ''B''), 0), ((''B'', ''C''), 30)],
                 nodes = [(''A'', 1), (''B'', 2), (''C'', 1)], median_degree = 1,
                 med_degree_str = ''1.00'' @ crlf,
                 output_file = [''1.00'' @ crlf, ''1.00'' @ crlf]\<rparr>)"
    by (simp add: run_defs med_str_1)
  have l: "edge_from_str (Match 0 ''B'' ''A'') = Some ((''A'', ''B''), 0)"
    by (simp add: edge_from_str_def sorted_pair_def)
  from replayed_event_changes_nothing [OF r l, of 0] r l show ?thesis
    by simp
qed

subsection \<open>The reported median\<close>

text \<open>
  C6 (the reported median of the \<open>n \<ge> 1\<close> node degrees is the standard median: the middle
  value of the sorted degrees for odd \<open>n\<close>, the mean of the two middle values for even
  \<open>n\<close>).  After every prefix \<open>ls\<close> of the input on which the program has written a line,
  the node table is not empty, \<^verbatim>\<open>median_degree\<close> is the standard median of the degrees in the
  node table, and the last line written is this median, formatted.  This covers the
  emissions after a change of the degrees and also the ones that reuse the median.
\<close>

theorem reported_median_is_standard_median:
  assumes "main ls = Some (Inr s)"
  shows "nodes s \<noteq> [] \<and> median_degree s = standard_median (map snd (nodes s)) \<and>
         output_file s \<noteq> [] \<and>
         last (output_file s) = med_str (standard_median (map snd (nodes s)))"
proof -
  from reported_main [OF assms] have rp: "output_file s \<noteq> []"
    "last (output_file s) = med_str (median_degree s)"
    "median (map snd (nodes s)) = Inr (median_degree s)"
    by (simp_all add: reported_def)
  from rp(3) have "nodes s \<noteq> []" "median_degree s = standard_median (map snd (nodes s))"
    by (auto simp: median_standard split: if_splits)
  with rp show ?thesis by simp
qed

theorem reported_median_witness:
  "main [Match 0 ''A'' ''B'', Match 10 ''B'' ''C'', Match 20 ''C'' ''D''] =
     Some (Inr \<lparr>latest_time = 20,
                 edges = [((''A'', ''B''), 0), ((''B'', ''C''), 10), ((''C'', ''D''), 20)],
                 nodes = [(''A'', 1), (''B'', 2), (''C'', 2), (''D'', 1)],
                 median_degree = 3 / 2,
                 med_degree_str = ''1.50'' @ crlf,
                 output_file = [''1.00'' @ crlf, ''1.00'' @ crlf, ''1.50'' @ crlf]\<rparr>) \<and>
   standard_median [1, 2, 2, 1] = 3 / 2 \<and>
   med_str (standard_median [1, 2, 2, 1]) = ''1.50'' @ crlf"
proof -
  have r: "main [Match 0 ''A'' ''B'', Match 10 ''B'' ''C'', Match 20 ''C'' ''D''] =
     Some (Inr \<lparr>latest_time = 20,
                 edges = [((''A'', ''B''), 0), ((''B'', ''C''), 10), ((''C'', ''D''), 20)],
                 nodes = [(''A'', 1), (''B'', 2), (''C'', 2), (''D'', 1)],
                 median_degree = 3 / 2,
                 med_degree_str = ''1.50'' @ crlf,
                 output_file = [''1.00'' @ crlf, ''1.00'' @ crlf, ''1.50'' @ crlf]\<rparr>)"
    by (simp add: run_defs med_str_1 med_str_1_5)
  from reported_median_is_standard_median [OF r] r show ?thesis
    by simp
qed

text \<open>
  C5 (the median is written with exactly two digits after the point, truncated toward zero:
  3.0 gives 3.00, 3.5 gives 3.50, a value in [3.49, 3.50) gives 3.49).  The examples of the
  claim and two with a whole part of two digits; the line end; for every rational \<open>m\<close> the
  formatted median is a minus sign when the truncated value is negative, a whole part of
  digits without a leading zero, a point, exactly two digits and CR LF, and the whole part
  and the two digits read as numerals give \<open>\<lfloor>\<bar>m\<bar> * 100\<rfloor>\<close> hundredths, the value truncated
  toward zero; and in every run each line written is a formatted median, the last one that
  of the current \<^verbatim>\<open>median_degree\<close>.  The medians of the program are whole or half numbers, on
  which the float arithmetic of the source is exact; they are held as rationals.
\<close>

theorem median_output_truncated:
  "med_str 3 = ''3.00'' @ [CHR 0x0D, CHR 0x0A] \<and>
   med_str (7 / 2) = ''3.50'' @ [CHR 0x0D, CHR 0x0A] \<and>
   (\<forall>m. 349 / 100 \<le> m \<and> m < 7 / 2 \<longrightarrow> med_str m = ''3.49'' @ [CHR 0x0D, CHR 0x0A]) \<and>
   med_str 12 = ''12.00'' @ [CHR 0x0D, CHR 0x0A] \<and>
   med_str (25 / 2) = ''12.50'' @ [CHR 0x0D, CHR 0x0A] \<and>
   (\<forall>m. \<exists>w d1 d2.
      med_str m =
        (if m \<le> - (1 / 100) then ''-'' else []) @ w @ ''.'' @ [d1, d2] @ [CHR 0x0D, CHR 0x0A] \<and>
      list_all is_digit (w @ [d1, d2]) \<and> w \<noteq> [] \<and> (w = ''0'' \<or> hd w \<noteq> CHR ''0'') \<and>
      decimal_value w * 100 + decimal_value [d1, d2] = nat \<lfloor>\<bar>m\<bar> * 100\<rfloor>) \<and>
   (\<forall>ls s. main ls = Some (Inr s) \<longrightarrow>
      1 \<le> median_degree s \<and> output_file s \<noteq> [] \<and>
      last (output_file s) = med_str (median_degree s) \<and>
      list_all (\<lambda>ln. \<exists>m. 1 \<le> m \<and> ln = med_str m) (output_file s))"
proof -
  have "1 \<le> median_degree s \<and> output_file s \<noteq> [] \<and>
      last (output_file s) = med_str (median_degree s) \<and>
      list_all (\<lambda>ln. \<exists>m. 1 \<le> m \<and> ln = med_str m) (output_file s)"
    if r: "main ls = Some (Inr s)" for ls s
    using reported_main [OF r] median_degree_ge_1 [OF r] output_lines_format [OF r]
    by (simp add: reported_def)
  then have runs: "\<forall>ls s. main ls = Some (Inr s) \<longrightarrow>
      1 \<le> median_degree s \<and> output_file s \<noteq> [] \<and>
      last (output_file s) = med_str (median_degree s) \<and>
      list_all (\<lambda>ln. \<exists>m. 1 \<le> m \<and> ln = med_str m) (output_file s)"
    by blast
  have rng: "\<forall>m. 349 / 100 \<le> m \<and> m < 7 / 2 \<longrightarrow> med_str m = ''3.49'' @ [CHR 0x0D, CHR 0x0A]"
    using med_str_3_49 by (simp add: crlf_def)
  have reads: "\<forall>m. \<exists>w d1 d2.
      med_str m =
        (if m \<le> - (1 / 100) then ''-'' else []) @ w @ ''.'' @ [d1, d2] @ [CHR 0x0D, CHR 0x0A] \<and>
      list_all is_digit (w @ [d1, d2]) \<and> w \<noteq> [] \<and> (w = ''0'' \<or> hd w \<noteq> CHR ''0'') \<and>
      decimal_value w * 100 + decimal_value [d1, d2] = nat \<lfloor>\<bar>m\<bar> * 100\<rfloor>"
    using med_str_reads_back unfolding crlf_def by (rule allI)
  have ex: "med_str 3 = ''3.00'' @ [CHR 0x0D, CHR 0x0A]"
    "med_str (7 / 2) = ''3.50'' @ [CHR 0x0D, CHR 0x0A]"
    "med_str 12 = ''12.00'' @ [CHR 0x0D, CHR 0x0A]"
    "med_str (25 / 2) = ''12.50'' @ [CHR 0x0D, CHR 0x0A]"
    using med_str_3 med_str_3_5 med_str_12 med_str_12_5 by (simp_all add: crlf_def)
  from ex rng reads runs show ?thesis
    by (intro conjI)
qed

theorem median_output_witness:
  "med_str (3499 / 1000) = ''3.49'' @ [CHR 0x0D, CHR 0x0A] \<and> percent_2f (3499 / 1000) = ''3.50''"
proof -
  note t = median_output_truncated [THEN conjunct2, THEN conjunct2, THEN conjunct1,
      rule_format, of "3499 / 1000"]
  have "med_str (3499 / 1000) = ''3.49'' @ [CHR 0x0D, CHR 0x0A]"
    by (rule t) simp
  then show ?thesis
    by (simp add: percent_2f_rounds)
qed

subsection \<open>The edge table is the window\<close>

text \<open>
  C4 (an edge is in the edge table iff its last-seen time stamp is more than
  \<^verbatim>\<open>latest_time\<close> minus 60 seconds; when the clock advances, every edge whose time stamp is at
  most the new end of the window, the end itself included, is evicted).  After a run on
  \<open>ls\<close>: the table has one entry per edge, and it maps \<open>e\<close> to \<open>t\<close> iff \<open>t\<close> is the most recent
  time among the events of \<open>ls\<close> for \<open>e\<close> and \<open>latest_time - 60 < t\<close>.  When the next event
  \<open>(e, t)\<close> is later than \<^verbatim>\<open>latest_time\<close>, the clock becomes \<open>t\<close>, and of the table in which
  \<open>e\<close> has been stored with \<open>t\<close> exactly the entries with a time stamp \<open>t' \<le> t - 60\<close> are
  removed.
\<close>

theorem edge_table_is_window:
  assumes "main ls = Some (Inr s)"
  shows "distinct (map fst (edges s)) \<and>
    (\<forall>e t. map_of (edges s) e = Some t \<longleftrightarrow> last_seen ls e = Some t \<and> latest_time s - 60 < t) \<and>
    (\<forall>l e t s'. edge_from_str l = Some (e, t) \<and> latest_time s < t \<and>
        main (ls @ [l]) = Some (Inr s') \<longrightarrow>
        latest_time s' = t \<and>
        (\<forall>e' t'. map_of (AList.update e t (edges s)) e' = Some t' \<longrightarrow>
           map_of (edges s') e' = (if t' \<le> t - 60 then None else Some t')) \<and>
        (\<forall>e' t'. map_of (edges s') e' = Some t' \<longrightarrow>
           map_of (AList.update e t (edges s)) e' = Some t' \<and> t - 60 < t'))"
proof -
  from window_main [OF assms]
  have d: "distinct (map fst (edges s))"
    and tab: "\<And>e. map_of (edges s) e =
        (case last_seen ls e of None \<Rightarrow> None
         | Some t' \<Rightarrow> if latest_time s - 60 < t' then Some t' else None)"
    unfolding window_inv_def by blast+
  have one: "map_of (edges s) e = Some t \<longleftrightarrow> last_seen ls e = Some t \<and> latest_time s - 60 < t"
    for e t
    unfolding tab by (auto split: option.splits)
  have two: "latest_time s' = t \<and>
        (\<forall>e' t'. map_of (AList.update e t (edges s)) e' = Some t' \<longrightarrow>
           map_of (edges s') e' = (if t' \<le> t - 60 then None else Some t')) \<and>
        (\<forall>e' t'. map_of (edges s') e' = Some t' \<longrightarrow>
           map_of (AList.update e t (edges s)) e' = Some t' \<and> t - 60 < t')"
    if l: "edge_from_str l = Some (e, t)" and lt: "latest_time s < t"
      and r: "main (ls @ [l]) = Some (Inr s')" for l e t s'
  proof -
    from r main_snoc [OF assms, of l] have "step s l = Inr s'" by simp
    with l lt have "case_A s e t = Inr s'" by (simp add: step_def)
    from case_A_later [OF this lt]
    have a: "latest_time s' = t"
      and b: "\<And>e'. map_of (edges s') e' =
       (case ((map_of (edges s))(e \<mapsto> t)) e' of
          None \<Rightarrow> None | Some t' \<Rightarrow> if t - 60 < t' then Some t' else None)"
      by blast+
    show ?thesis
      unfolding b AList.update_conv' using a by (auto split: option.splits if_splits)
  qed
  from d one two show ?thesis by blast
qed

theorem edge_table_witness:
  "main [Match 0 ''A'' ''B'', Match 10 ''B'' ''C''] =
     Some (Inr \<lparr>latest_time = 10, edges = [((''A'', ''B''), 0), ((''B'', ''C''), 10)],
                 nodes = [(''A'', 1), (''B'', 2), (''C'', 1)], median_degree = 1,
                 med_degree_str = ''1.00'' @ crlf,
                 output_file = [''1.00'' @ crlf, ''1.00'' @ crlf]\<rparr>) \<and>
   last_seen [Match 0 ''A'' ''B'', Match 10 ''B'' ''C''] (''B'', ''C'') = Some 10 \<and>
   main ([Match 0 ''A'' ''B'', Match 10 ''B'' ''C''] @ [Match 70 ''A'' ''C'']) =
     Some (Inr \<lparr>latest_time = 70, edges = [((''A'', ''C''), 70)],
                 nodes = [(''A'', 1), (''C'', 1)], median_degree = 1,
                 med_degree_str = ''1.00'' @ crlf,
                 output_file = [''1.00'' @ crlf, ''1.00'' @ crlf, ''1.00'' @ crlf]\<rparr>) \<and>
   map_of [((''A'', ''C''), 70 :: int)] (''B'', ''C'') = None"
proof -
  let ?s = "\<lparr>latest_time = 10, edges = [((''A'', ''B''), 0), ((''B'', ''C''), 10)],
                 nodes = [(''A'', 1), (''B'', 2), (''C'', 1)], median_degree = 1,
                 med_degree_str = ''1.00'' @ crlf,
                 output_file = [''1.00'' @ crlf, ''1.00'' @ crlf]\<rparr>"
  let ?s' = "\<lparr>latest_time = 70, edges = [((''A'', ''C''), 70)],
                 nodes = [(''A'', 1), (''C'', 1)], median_degree = 1,
                 med_degree_str = ''1.00'' @ crlf,
                 output_file = [''1.00'' @ crlf, ''1.00'' @ crlf, ''1.00'' @ crlf]\<rparr>"
  have r: "main [Match 0 ''A'' ''B'', Match 10 ''B'' ''C''] = Some (Inr ?s)"
    by (simp add: run_defs med_str_1)
  have r': "main ([Match 0 ''A'' ''B'', Match 10 ''B'' ''C''] @ [Match 70 ''A'' ''C'']) = Some (Inr ?s')"
    by (simp add: run_defs med_str_1)
  have l: "edge_from_str (Match 70 ''A'' ''C'') = Some ((''A'', ''C''), 70)"
    by (simp add: edge_from_str_def sorted_pair_def)
  note t = edge_table_is_window [OF r]
  note t1 = t [THEN conjunct2, THEN conjunct1, THEN spec, THEN spec, of "(''B'', ''C'')" 10]
  have a: "last_seen [Match 0 ''A'' ''B'', Match 10 ''B'' ''C''] (''B'', ''C'') = Some 10"
    using t1 by simp
  have h: "edge_from_str (Match 70 ''A'' ''C'') = Some ((''A'', ''C''), 70) \<and>
      latest_time ?s < 70 \<and>
      main ([Match 0 ''A'' ''B'', Match 10 ''B'' ''C''] @ [Match 70 ''A'' ''C'']) = Some (Inr ?s')"
    using l r' by simp
  note t2 = t [THEN conjunct2, THEN conjunct2, THEN spec, THEN spec, THEN spec, THEN spec,
      THEN mp, OF h, THEN conjunct2, THEN conjunct1, THEN spec, THEN spec,
      of "(''B'', ''C'')" 10]
  have b: "map_of [((''A'', ''C''), 70 :: int)] (''B'', ''C'') = None"
    using t2 by simp
  from r r' a b show ?thesis by (intro conjI)
qed

subsection \<open>Degrees and edges\<close>

lemma occurrences_snoc:
  "occurrences n (ks @ [e]) =
     occurrences n ks + (if fst e = n then 1 else 0) + (if snd e = n then 1 else 0)"
  by (simp add: occurrences_def)

lemma length_filter_removeAll:
  "distinct ks \<Longrightarrow> e \<in> set ks \<Longrightarrow>
   length (filter P (removeAll e ks)) + (if P e then 1 else 0) = length (filter P ks)"
  by (induction ks) auto

lemma occurrences_removeAll:
  assumes "distinct ks" "e \<in> set ks"
  shows "occurrences n (removeAll e ks) + (if fst e = n then 1 else 0) + (if snd e = n then 1 else 0)
     = occurrences n ks"
  using length_filter_removeAll [OF assms, of "\<lambda>e. fst e = n"]
    length_filter_removeAll [OF assms, of "\<lambda>e. snd e = n"]
  by (simp add: occurrences_def)

lemma occurrences_pos: "e \<in> set ks \<Longrightarrow> 0 < occurrences (fst e) ks \<and> 0 < occurrences (snd e) ks"
  by (auto simp: occurrences_def filter_empty_conv)

lemma occurrences_self_loop:
  assumes "e \<in> set ks" "fst e = snd e"
  shows "2 \<le> occurrences (fst e) ks"
proof -
  from assms have "0 < length [x \<leftarrow> ks. fst x = fst e]" "0 < length [x \<leftarrow> ks. snd x = fst e]"
    by (auto simp: filter_empty_conv)
  then show ?thesis unfolding occurrences_def by linarith
qed

text \<open>The node table after the two kinds of update.\<close>

lemma add_node_map_of:
  "map_of (add_node n ns) = (map_of ns)(n \<mapsto> (case map_of ns n of None \<Rightarrow> 1 | Some d \<Rightarrow> d + 1))"
  by (simp add: add_node_def AList.update_conv' split: option.splits)

lemma add_node_distinct: "distinct (map fst ns) \<Longrightarrow> distinct (map fst (add_node n ns))"
  by (simp add: add_node_def AList.distinct_update split: option.splits)

lemma drop_node_map_of:
  assumes "map_of ns n = Some d"
  shows "\<exists>ns'. drop_node n ns = Inr ns' \<and>
    map_of ns' = (map_of ns)(n := if d = 1 then None else Some (d - 1)) \<and>
    (distinct (map fst ns) \<longrightarrow> distinct (map fst ns'))"
  using assms
  by (simp add: drop_node_def AList.update_conv' AList.delete_conv' AList.distinct_update
      AList.distinct_delete)

lemma consistent_add_nodes:
  assumes "consistent ks ns" "e \<notin> set ks"
  shows "consistent (ks @ [e]) (add_nodes e ns)"
proof -
  from assms(1) have d: "distinct ks" "distinct (map fst ns)"
    and m: "\<And>n. map_of ns n = degree_of (occurrences n ks)"
    by (simp_all add: consistent_def)
  have "map_of (add_nodes e ns) n = degree_of (occurrences n (ks @ [e]))" for n
    unfolding add_nodes_def add_node_map_of occurrences_snoc
    by (simp add: m degree_of_def)
  moreover have "distinct (map fst (add_nodes e ns))"
    using d(2) by (simp add: add_nodes_def add_node_distinct)
  ultimately show ?thesis
    using d(1) assms(2) by (simp add: consistent_def)
qed

lemma consistent_drop_nodes:
  assumes "consistent ks ns" "e \<in> set ks"
  shows "\<exists>ns1 ns2. drop_node (fst e) ns = Inr ns1 \<and> drop_node (snd e) ns1 = Inr ns2 \<and>
    consistent (removeAll e ks) ns2"
proof -
  from assms(1) have d: "distinct ks" "distinct (map fst ns)"
    and m: "\<And>n. map_of ns n = degree_of (occurrences n ks)"
    by (simp_all add: consistent_def)
  note rm = occurrences_removeAll [OF d(1) assms(2)]
  from occurrences_pos [OF assms(2)]
  have p1: "0 < occurrences (fst e) ks" and p2: "0 < occurrences (snd e) ks" by simp_all
  from p1 have "map_of ns (fst e) = Some (int (occurrences (fst e) ks))"
    by (simp add: m degree_of_def)
  from drop_node_map_of [OF this] d(2) obtain ns1 where
    ns1: "drop_node (fst e) ns = Inr ns1"
    and m1: "map_of ns1 = (map_of ns)(fst e :=
        if int (occurrences (fst e) ks) = 1 then None else Some (int (occurrences (fst e) ks) - 1))"
    and d1: "distinct (map fst ns1)"
    by blast
  have "\<exists>d. map_of ns1 (snd e) = Some d \<and>
      d = int (occurrences (snd e) ks) - (if fst e = snd e then 1 else 0)"
  proof (cases "fst e = snd e")
    case True
    with occurrences_self_loop [OF assms(2)] show ?thesis
      by (simp add: m1)
  next
    case False
    with p2 show ?thesis
      by (simp add: m1 m degree_of_def)
  qed
  then obtain d2 where l2: "map_of ns1 (snd e) = Some d2"
    and d2: "d2 = int (occurrences (snd e) ks) - (if fst e = snd e then 1 else 0)"
    by blast
  from drop_node_map_of [OF l2] d1 obtain ns2 where
    ns2: "drop_node (snd e) ns1 = Inr ns2"
    and m2: "map_of ns2 = (map_of ns1)(snd e := if d2 = 1 then None else Some (d2 - 1))"
    and dd2: "distinct (map fst ns2)"
    by blast
  have "map_of ns2 n = degree_of (occurrences n (removeAll e ks))" for n
    using rm [of n] p1 p2 occurrences_self_loop [OF assms(2)]
    unfolding m2 m1 d2
    by (auto simp: m degree_of_def split: if_splits)
  with ns1 ns2 dd2 d(1) show ?thesis
    by (auto simp: consistent_def distinct_removeAll)
qed

lemma evict_loop_consistent:
  assumes "consistent (map fst es) ns" "distinct evl" "set evl \<subseteq> set (map fst es)"
  shows "\<exists>es' ns'. evict_loop evl es ns = Inr (es', ns') \<and> consistent (map fst es') ns'"
  using assms
proof (induction evl arbitrary: es ns)
  case Nil
  then show ?case by simp
next
  case (Cons e evl)
  from Cons.prems(3) have mem: "e \<in> set (map fst es)" by simp
  then obtain t where look: "map_of es e = Some t"
    by (cases "map_of es e") (auto simp: map_of_eq_None_iff)
  from consistent_drop_nodes [OF Cons.prems(1) mem] obtain ns1 ns2 where
    d1: "drop_node (fst e) ns = Inr ns1" and d2: "drop_node (snd e) ns1 = Inr ns2"
    and c: "consistent (removeAll e (map fst es)) ns2"
    by blast
  from c have c': "consistent (map fst (AList.delete e es)) ns2"
    by (simp add: AList.delete_keys)
  from Cons.prems(2,3) have "distinct evl" "set evl \<subseteq> set (map fst (AList.delete e es))"
    by (auto simp: AList.delete_keys)
  from Cons.IH [OF c' this] look d1 d2 show ?case
    by simp
qed

lemma evict_edges_keys:
  "set (evict_edges end_time es) \<subseteq> set (map fst es)"
  "distinct (map fst es) \<Longrightarrow> distinct (evict_edges end_time es)"
  by (auto simp: evict_edges_def)

lemma evict_graph_ok:
  assumes "graph_ok s"
  shows "\<exists>s'. evict s t = Inr s' \<and> graph_ok s'"
proof -
  from assms have c: "consistent (map fst (edges s)) (nodes s)"
    by (simp add: graph_ok_def)
  then have "distinct (map fst (edges s))"
    by (simp add: consistent_def)
  from evict_loop_consistent [OF c evict_edges_keys(2) [OF this] evict_edges_keys(1)]
  obtain es' ns' where
    "evict_loop (evict_edges (t - 60) (edges s)) (edges s) (nodes s) = Inr (es', ns')"
    "consistent (map fst es') ns'"
    by blast
  then show ?thesis
    by (simp add: evict_def graph_ok_def)
qed

lemma admit_graph_ok:
  assumes "graph_ok s"
  shows "graph_ok (admit s e t)"
proof (cases "map_of (edges s) e")
  case None
  then have "e \<notin> set (map fst (edges s))"
    by (simp add: map_of_eq_None_iff)
  with assms None show ?thesis
    by (simp add: graph_ok_def admit_def AList.update_keys consistent_add_nodes)
next
  case (Some t0)
  then have "e \<in> set (map fst (edges s))"
    by (metis map_of_eq_None_iff option.distinct(1) set_map)
  with assms Some show ?thesis
    by (simp add: graph_ok_def admit_def AList.update_keys)
qed

lemma graph_ok_nodes:
  assumes "graph_ok s" "map_of (edges s) e = Some t"
  shows "nodes s \<noteq> []"
proof -
  from assms(2) have "e \<in> set (map fst (edges s))"
    by (metis map_of_eq_None_iff option.distinct(1) set_map)
  from occurrences_pos [OF this] assms(1) have "map_of (nodes s) (fst e) \<noteq> None"
    by (simp add: graph_ok_def consistent_def degree_of_def)
  then show ?thesis by auto
qed

lemma recompute_write_graph_ok:
  assumes "graph_ok s" "map_of (edges s) e = Some t"
  shows "\<exists>s3. recompute s = Inr s3 \<and> graph_ok (write_median s3)"
proof -
  from graph_ok_nodes [OF assms] have "median (map snd (nodes s)) = Inr (standard_median (map snd (nodes s)))"
    by (simp add: median_standard)
  with assms(1) show ?thesis
    by (simp add: recompute_def graph_ok_def write_median_def)
qed

lemma step_graph_ok:
  assumes "graph_ok s"
  shows "\<exists>s'. step s l = Inr s' \<and> graph_ok s'"
proof (cases "edge_from_str l")
  case None
  with assms show ?thesis by (simp add: step_def)
next
  case (Some a)
  obtain e t where l: "edge_from_str l = Some (e, t)"
    using Some by (cases a) simp
  note adm = admit_graph_ok [OF assms, of e t]
  have adm_e: "map_of (edges (admit s e t)) e = Some t"
    by (simp add: admit_frame AList.update_conv')
  consider (later) "latest_time s < t" | (equal) "t = latest_time s"
    | (B) "t < latest_time s" "latest_time s - 60 < t" | (C) "t \<le> latest_time s - 60"
    by linarith
  then show ?thesis
  proof cases
    case later
    from evict_graph_ok [OF adm, of t] obtain s2 where
      ev: "evict (admit s e t) t = Inr s2" and ok2: "graph_ok s2" by blast
    from evict_edges_map_of [OF ev, of e] adm_e have "map_of (edges s2) e = Some t"
      by simp
    from recompute_write_graph_ok [OF ok2 this] ev later l show ?thesis
      by (auto simp: step_def case_A_def)
  next
    case equal
    from recompute_write_graph_ok [OF adm adm_e] equal l show ?thesis
      by (auto simp: step_def case_A_def)
  next
    case B
    show ?thesis
    proof (cases "map_of (edges s) e")
      case None
      from recompute_write_graph_ok [OF adm adm_e] None B l show ?thesis
        by (auto simp: step_def case_B_def)
    next
      case (Some t0)
      then have "e \<in> set (map fst (edges s))"
        by (metis map_of_eq_None_iff option.distinct(1) set_map)
      with assms Some B l show ?thesis
        by (simp add: step_def case_B_def graph_ok_def write_median_def AList.update_keys)
    qed
  next
    case C
    with assms l show ?thesis
      by (simp add: step_def case_C_def graph_ok_def)
  qed
qed

lemma first_state_graph_ok: "fst e \<noteq> snd e \<Longrightarrow> graph_ok (first_state e t)"
  by (auto simp: graph_ok_def first_state_def consistent_def occurrences_def degree_of_def)

lemma events_append: "events (xs @ ys) = events xs @ events ys"
  by (simp add: events_def map_filter_def)

lemma events_single:
  "events [l] = (case edge_from_str l of None \<Rightarrow> [] | Some ev \<Rightarrow> [ev])"
  by (simp add: events_def map_filter_def split: option.split)

lemma events_Nil_iff: "events xs = [] \<longleftrightarrow> (\<forall>l \<in> set xs. edge_from_str l = None)"
proof (induction xs)
  case Nil
  show ?case by (simp add: events_def)
next
  case (Cons a xs)
  then show ?case
    by (cases "edge_from_str a") (simp_all add: events_def)
qed

lemma proper_start_snoc:
  "events xs \<noteq> [] \<Longrightarrow> proper_start (xs @ [l]) = proper_start xs"
  by (cases "events xs") (simp_all add: proper_start_def events_append)

lemma proper_start_first:
  "events xs = [] \<Longrightarrow> edge_from_str l = Some (e, t) \<Longrightarrow>
   proper_start (xs @ [l]) \<longleftrightarrow> fst e \<noteq> snd e"
  by (simp add: proper_start_def events_append events_single)

lemma main_graph_ok:
  "main ls = Some (Inr s) \<Longrightarrow> proper_start ls \<Longrightarrow> graph_ok s"
proof (induction rule: main_induct)
  case (first xs l e t)
  then show ?case
    by (simp add: proper_start_first events_Nil_iff first_state_graph_ok)
next
  case (step xs l s s')
  from step.hyps(1) have "events xs \<noteq> []"
    using main_None_iff [of xs] by (auto simp: events_Nil_iff)
  with step.prems have "proper_start xs"
    by (simp add: proper_start_snoc)
  from step_graph_ok [OF step.IH [OF this], of l] step.hyps(2) show ?case
    by auto
qed

lemma main_total:
  "proper_start ls \<Longrightarrow> \<exists>s. main ls = Some (Inr s) \<and> graph_ok s"
proof (induction ls rule: rev_induct)
  case Nil
  then show ?case by (simp add: proper_start_def events_def)
next
  case (snoc l xs)
  show ?case
  proof (cases "events xs = []")
    case True
    then have n: "main xs = None"
      by (simp add: main_None_iff events_Nil_iff)
    from snoc.prems True obtain e t where l: "edge_from_str l = Some (e, t)"
      by (cases "edge_from_str l") (auto simp: proper_start_def events_append events_single)
    with snoc.prems True have "fst e \<noteq> snd e"
      by (simp add: proper_start_first)
    with l n show ?thesis
      by (simp add: main_snoc_None first_state_graph_ok)
  next
    case False
    with snoc.prems have "proper_start xs"
      by (simp add: proper_start_snoc)
    from snoc.IH [OF this] obtain s where s: "main xs = Some (Inr s)" "graph_ok s"
      by blast
    from step_graph_ok [OF s(2), of l] main_snoc [OF s(1), of l] show ?thesis
      by auto
  qed
qed

lemma occurrences_no_self_edge:
  "(n, n) \<notin> set ks \<Longrightarrow> occurrences n ks = length [e \<leftarrow> ks. fst e = n \<or> snd e = n]"
proof (induction ks)
  case Nil
  show ?case by (simp add: occurrences_def)
next
  case (Cons k ks)
  from Cons.prems have "\<not> (fst k = n \<and> snd k = n)"
    by (cases k) auto
  with Cons show ?case
    by (auto simp: occurrences_def)
qed

lemma degrees_count_edges_proper_start:
  assumes "main ls = Some (Inr s)" and "proper_start ls" and "map_of (edges s) (n, n) = None"
  shows "map_of (nodes s) n =
       (if edges_containing n (edges s) = 0 then None
        else Some (int (edges_containing n (edges s))))"
proof -
  from main_graph_ok [OF assms(1,2)]
  have m: "map_of (nodes s) n = degree_of (occurrences n (map fst (edges s)))"
    by (simp add: graph_ok_def consistent_def)
  from assms(3) have "(n, n) \<notin> set (map fst (edges s))"
    by (simp add: map_of_eq_None_iff)
  then have "occurrences n (map fst (edges s)) = edges_containing n (edges s)"
    unfolding edges_containing_def by (rule occurrences_no_self_edge)
  with m show ?thesis
    by (simp add: degree_of_def)
qed


lemma output_length:
  "main ls = Some (Inr s) \<Longrightarrow> length (output_file s) = length (events ls)"
proof (induction rule: main_induct)
  case (first xs l e t)
  then show ?case
    by (simp add: events_append events_single first_state_def events_Nil_iff [THEN iffD2])
next
  case (step xs l s s')
  from step_output [OF step.hyps(2)] step.IH show ?case
    by (cases "edge_from_str l") (simp_all add: events_append events_single)
qed

lemma output_contract_proper_start:
  assumes "proper_start ls"
  shows "\<exists>s. main ls = Some (Inr s) \<and> length (output_file s) = length (events ls) \<and>
    list_all (\<lambda>ln. \<exists>m. 1 \<le> m \<and> ln = med_str m) (output_file s)"
proof -
  from main_total [OF assms] obtain s where "main ls = Some (Inr s)" by blast
  with output_length [OF this] output_lines_format [OF this] show ?thesis by simp
qed





text \<open>
  C3 (after every processed event the stored degree of every node in the node table is the
  number of active edges that contain it, and a node is in the table iff its degree is at
  least 1, for every input).  The program breaks this for a self-transaction admitted by the
  main loop: after the events (A,B) and (X,X), both at time 0, the loop over the two
  components of the edge has added to the degree of X twice, so X is stored with the degree
  2 while one active edge contains it.  For a run whose first event joins two different
  users, every node that has no active edge to itself is stored with the number of active
  edges that contain it (\<open>degrees_count_edges_proper_start\<close>).
\<close>

theorem self_transaction_degree_is_two:
  "main [Match 0 ''A'' ''B'', Match 0 ''X'' ''X''] =
     Some (Inr \<lparr>latest_time = 0, edges = [((''A'', ''B''), 0), ((''X'', ''X''), 0)],
                 nodes = [(''A'', 1), (''B'', 1), (''X'', 2)], median_degree = 1,
                 med_degree_str = ''1.00'' @ crlf,
                 output_file = [''1.00'' @ crlf, ''1.00'' @ crlf]\<rparr>) \<and>
   map_of [(''A'', 1), (''B'', 1), (''X'', 2 :: int)] ''X'' = Some 2 \<and>
   edges_containing ''X'' [((''A'', ''B''), 0), ((''X'', ''X''), 0)] = 1"
  by (simp add: run_defs med_str_1 edges_containing_def)




subsection \<open>One line per event\<close>

text \<open>
  C9 (after the first line, one output line for every line with a valid event, none for the
  others, each the formatted median followed by CR LF).  The program breaks this when the
  first valid event is a self-transaction: the bootstrap code stores the node once, with
  degree 1, where the eviction loop takes one from the degree for each of the two end points.
  When the edge is evicted, the second look-up \<^verbatim>\<open>nodes[node]\<close> raises \<^verbatim>\<open>KeyError\<close> and the
  program stops without a line for the event.  For every input whose first valid event joins
  two different users the contract holds (\<open>output_contract_proper_start\<close>).
\<close>

theorem first_event_self_transaction_raises:
  "main [Match 0 ''X'' ''X'', Match 100 ''Y'' ''Z''] = Some (Inl KeyError)"
  by (simp add: run_defs med_str_1)

end
